theory Spec2Isabelle
  imports Complex_Main
begin

section \<open>The laundry report parser (src/services/csvParser.ts)\<close>

text \<open>
  A shallow embedding of \<^verbatim>\<open>src/services/csvParser.ts\<close>. A JavaScript string is a
  sequence of UTF-16 code units; here it is a \<^typ>\<open>string\<close> whose characters are the
  code units U+0000 to U+00FF (Latin-1), which holds every literal of the source,
  the accented letters of its two placeholder texts included. The built-in
  functions of the language that the source calls (\<^verbatim>\<open>trim\<close>, \<^verbatim>\<open>replace\<close>,
  \<^verbatim>\<open>split\<close>, \<^verbatim>\<open>includes\<close>, \<^verbatim>\<open>toLowerCase\<close>, \<^verbatim>\<open>parseFloat\<close>, \<^verbatim>\<open>parseInt\<close>,
  \<^verbatim>\<open>Date\<close>) are modelled after ECMA-262 on that range. What a call reads of its
  host, the capacity of the regular expression engine and the time zone, is the
  parameter \<open>h\<close> of the functions that depend on it.
\<close>

subsection \<open>Built-in string operations\<close>

text \<open>White space as \<^verbatim>\<open>trim\<close>, \<^verbatim>\<open>parseFloat\<close> and \<^verbatim>\<open>parseInt\<close> skip it: TAB, LF, VT, FF,
  CR, SP and NBSP are the white space and line terminator code units below U+0100.\<close>

definition js_isWhiteSpace :: "char \<Rightarrow> bool" where
  "js_isWhiteSpace c =
     (c = CHR 0x09 \<or> c = CHR 0x0A \<or> c = CHR 0x0B \<or> c = CHR 0x0C \<or> c = CHR 0x0D
      \<or> c = CHR 0x20 \<or> c = CHR 0xA0)"

definition js_trim :: "string \<Rightarrow> string" where
  "js_trim s = rev (dropWhile js_isWhiteSpace (rev (dropWhile js_isWhiteSpace s)))"

definition js_startsWith :: "string \<Rightarrow> string \<Rightarrow> bool" where
  "js_startsWith s p = (take (length p) s = p)"

text \<open>\<^verbatim>\<open>s.includes(p)\<close>: \<open>p\<close> occurs in \<open>s\<close> as a contiguous substring.\<close>

fun js_includes :: "string \<Rightarrow> string \<Rightarrow> bool" where
  "js_includes [] p = (p = [])"
| "js_includes (c # cs) p = (js_startsWith (c # cs) p \<or> js_includes cs p)"

text \<open>\<^verbatim>\<open>s.replace(p, r)\<close> with a string pattern: the first occurrence only. (The
  replacement texts of the source hold no \<^verbatim>\<open>$\<close>, so they are taken literally.)\<close>

fun js_replace_first :: "string \<Rightarrow> string \<Rightarrow> string \<Rightarrow> string" where
  "js_replace_first p r [] = (if p = [] then r else [])"
| "js_replace_first p r (c # cs) =
     (if js_startsWith (c # cs) p then r @ drop (length p) (c # cs)
      else c # js_replace_first p r cs)"

text \<open>\<^verbatim>\<open>s.replace(/['"]/g, '')\<close>, \<^verbatim>\<open>s.replace(/\./g, '')\<close> and \<^verbatim>\<open>s.replace(/,/g, '')\<close>:
  every occurrence of the characters is removed.\<close>

definition strip_quotes :: "string \<Rightarrow> string" where
  "strip_quotes s = filter (\<lambda>c. c \<noteq> CHR 0x27 \<and> c \<noteq> CHR 0x22) s"

definition remove_char :: "char \<Rightarrow> string \<Rightarrow> string" where
  "remove_char d s = filter (\<lambda>c. c \<noteq> d) s"

text \<open>\<^verbatim>\<open>s.split(d)\<close> for a one-character separator: the pieces between the
  occurrences of \<open>d\<close>, never an empty array.\<close>

fun split_acc :: "char \<Rightarrow> string \<Rightarrow> string \<Rightarrow> string list" where
  "split_acc d cur [] = [rev cur]"
| "split_acc d cur (c # cs) =
     (if c = d then rev cur # split_acc d [] cs else split_acc d (c # cur) cs)"

definition js_split :: "char \<Rightarrow> string \<Rightarrow> string list" where
  "js_split d s = split_acc d [] s"

text \<open>\<^verbatim>\<open>s.toLowerCase()\<close> on Latin-1: the letters A to Z and the accented capitals
  U+00C0 to U+00DE (U+00D7, the multiplication sign, apart) move up by 32.\<close>

definition js_toLower :: "char \<Rightarrow> char" where
  "js_toLower c =
     (let n = (of_char c :: nat)
      in if (65 \<le> n \<and> n \<le> 90) \<or> (192 \<le> n \<and> n \<le> 222 \<and> n \<noteq> 215)
         then char_of (n + 32) else c)"

definition js_toLowerCase :: "string \<Rightarrow> string" where
  "js_toLowerCase s = map js_toLower s"

text \<open>An array read \<^verbatim>\<open>xs[i]\<close>: \<^verbatim>\<open>undefined\<close> (here \<open>None\<close>) out of range.\<close>

definition js_nth :: "'a list \<Rightarrow> nat \<Rightarrow> 'a option" where
  "js_nth xs i = (if i < length xs then Some (xs ! i) else None)"

subsection \<open>Numbers: \<^verbatim>\<open>parseFloat\<close> and \<^verbatim>\<open>parseInt\<close>\<close>

text \<open>
  A JavaScript number read from text is \<open>NaN\<close>, an infinity, or finite. A finite
  result is kept as the exact rational value of the numeral that was read;
  JavaScript rounds that value to the nearest double, which keeps its sign and
  keeps zero. The sign of a zero is not kept.
\<close>

datatype jsnum = NaN | NegInfinity | Num rat | PosInfinity

definition jsnum_nonneg :: "jsnum \<Rightarrow> bool" where
  "jsnum_nonneg x = (case x of NaN \<Rightarrow> False | NegInfinity \<Rightarrow> False
                      | Num q \<Rightarrow> 0 \<le> q | PosInfinity \<Rightarrow> True)"

definition jsnum_neg :: "jsnum \<Rightarrow> jsnum" where
  "jsnum_neg x = (case x of NaN \<Rightarrow> NaN | NegInfinity \<Rightarrow> PosInfinity
                   | Num q \<Rightarrow> Num (- q) | PosInfinity \<Rightarrow> NegInfinity)"

definition isDigit :: "char \<Rightarrow> bool" where
  "isDigit c = (48 \<le> (of_char c :: nat) \<and> (of_char c :: nat) \<le> 57)"

text \<open>The value of a run of decimal digits.\<close>

definition digits_value :: "string \<Rightarrow> int" where
  "digits_value ds = foldl (\<lambda>a c. 10 * a + (of_char c - 48)) 0 ds"

definition scale10 :: "rat \<Rightarrow> int \<Rightarrow> rat" where
  "scale10 m k = (if 0 \<le> k then m * 10 ^ nat k else m / 10 ^ nat (- k))"

text \<open>The exponent part \<^verbatim>\<open>e\<close>, \<^verbatim>\<open>E\<close> with an optional sign and at least one digit;
  where the digits are missing the numeral ends before the \<^verbatim>\<open>e\<close>.\<close>

definition exponent_part :: "string \<Rightarrow> int" where
  "exponent_part s =
     (case s of
        [] \<Rightarrow> 0
      | e # t \<Rightarrow>
          if e = CHR ''e'' \<or> e = CHR ''E'' then
            (let sg = (case t of [] \<Rightarrow> 1 | c # _ \<Rightarrow> if c = CHR ''-'' then - 1 else 1);
                 u = (case t of [] \<Rightarrow> [] | c # v \<Rightarrow> if c = CHR ''-'' \<or> c = CHR ''+'' then v else t);
                 ds = takeWhile isDigit u
             in if ds = [] then 0 else sg * digits_value ds)
          else 0)"

text \<open>The longest prefix that is a \<^verbatim>\<open>StrUnsignedDecimalLiteral\<close>: \<^verbatim>\<open>Infinity\<close>, or
  digits with an optional fraction and exponent, at least one digit before or
  after the point.\<close>

definition parse_unsigned :: "string \<Rightarrow> jsnum" where
  "parse_unsigned s =
     (if js_startsWith s ''Infinity'' then PosInfinity
      else
        let ip = takeWhile isDigit s;
            r1 = dropWhile isDigit s;
            fp = (case r1 of [] \<Rightarrow> [] | c # t \<Rightarrow> if c = CHR ''.'' then takeWhile isDigit t else []);
            r2 = (case r1 of [] \<Rightarrow> [] | c # t \<Rightarrow> if c = CHR ''.'' then dropWhile isDigit t else r1)
        in if ip = [] \<and> fp = [] then NaN
           else Num (scale10 (of_int (digits_value (ip @ fp))) (exponent_part r2 - int (length fp))))"

definition js_parseFloat :: "string \<Rightarrow> jsnum" where
  "js_parseFloat s =
     (let t = dropWhile js_isWhiteSpace s
      in case t of
           [] \<Rightarrow> NaN
         | c # u \<Rightarrow>
             if c = CHR ''-'' then jsnum_neg (parse_unsigned u)
             else if c = CHR ''+'' then parse_unsigned u
             else parse_unsigned t)"

text \<open>\<^verbatim>\<open>parseInt(s, 10)\<close>: leading white space, an optional sign, then the longest
  run of decimal digits; \<open>None\<close> is \<open>NaN\<close>.\<close>

definition js_parseInt :: "string \<Rightarrow> int option" where
  "js_parseInt s =
     (let t = dropWhile js_isWhiteSpace s;
          sg = (case t of [] \<Rightarrow> 1 | c # _ \<Rightarrow> if c = CHR ''-'' then - 1 else (1::int));
          u = (case t of [] \<Rightarrow> [] | c # v \<Rightarrow> if c = CHR ''-'' \<or> c = CHR ''+'' then v else t);
          ds = takeWhile isDigit u
      in if ds = [] then None else Some (sg * digits_value ds))"

subsection \<open>\<^verbatim>\<open>parseCurrency\<close> and \<^verbatim>\<open>determineCycleType\<close>\<close>

text \<open>The text \<^verbatim>\<open>parseCurrency\<close> hands to \<^verbatim>\<open>parseFloat\<close> (lines 7 to 16).\<close>

definition currency_clean :: "string \<Rightarrow> string" where
  "currency_clean v =
     (let clean = js_trim (js_replace_first ''R$'' [] (strip_quotes v));
          clean' = (if js_includes clean ''.'' \<and> js_includes clean '',''
                    then remove_char CHR ''.'' clean else clean)
      in js_replace_first '','' ''.'' clean')"

definition parseCurrency :: "string \<Rightarrow> jsnum" where
  "parseCurrency v =
     (if v = [] then Num 0
      else let num = js_parseFloat (currency_clean v)
           in if num = NaN then Num 0 else num)"

datatype CycleType = WASH | DRY | UNKNOWN

definition determineCycleType :: "string \<Rightarrow> CycleType" where
  "determineCycleType productName =
     (if productName = [] then UNKNOWN
      else let lower = js_toLowerCase productName
           in if js_includes lower ''lava'' then WASH
              else if js_includes lower ''seca'' then DRY
              else UNKNOWN)"

subsection \<open>Errors and the host\<close>

text \<open>What the source can throw. A method call on \<^verbatim>\<open>undefined\<close> is a \<open>TypeError\<close>:
  each unguarded call on an array element (\<^verbatim>\<open>lines[i].includes(...)\<close>,
  \<^verbatim>\<open>lines[i].trim()\<close>, \<^verbatim>\<open>lines[j].startsWith(...)\<close>) is an error branch of the
  model. A regular expression whose matching passes the engine's backtrack
  stack is a \<open>RangeError\<close>.\<close>

datatype js_error = TypeError | RangeError

text \<open>The host of a call:
  \<^item> \<open>regexp_capacity\<close>, the number of iterations of a repeated group that the
    backtrack stack of the regular expression engine holds;
  \<^item> the time zone, as ECMA-262 reads it: \<open>offset_at_utc t\<close> is the offset of local
    time from UTC, in milliseconds, at the instant \<open>t\<close> (\<open>LocalTZA(t, true)\<close>), and
    \<open>offset_at_local t\<close> is the offset by which the local time \<open>t\<close> is read
    (\<open>LocalTZA(t, false)\<close>). The two differ around a change of offset.\<close>

record host =
  regexp_capacity :: int
  offset_at_utc :: "int \<Rightarrow> int"
  offset_at_local :: "int \<Rightarrow> int"

subsection \<open>Lines and columns\<close>

datatype CsvFormat = SELF_SERVICE | ATTENDANT | UNKNOWN_FORMAT

text \<open>\<^verbatim>\<open>line.split(/,(?=(?:(?:[^"]*"){2})*[^"]*$)/)\<close>, line 44. The pattern is tried
  at each comma, from the left. Its look-ahead runs to the end of the line: the
  group \<^verbatim>\<open>(?:[^"]*"){2}\<close> is repeated once for each pair of double quotes that
  follows, with a backtrack entry for each repetition, and the split throws
  \<open>RangeError\<close> when the repetitions pass the capacity \<open>cap\<close> of the engine. Otherwise
  the look-ahead holds exactly when the text after the comma has an even number
  of double quotes, and the line is cut there. The pattern has no capture
  group, so the result holds the pieces only.\<close>

definition count_dquotes :: "string \<Rightarrow> nat" where
  "count_dquotes s = length (filter (\<lambda>c. c = CHR 0x22) s)"

fun splitCsvLine_acc :: "int \<Rightarrow> string \<Rightarrow> string \<Rightarrow> js_error + string list" where
  "splitCsvLine_acc cap cur [] = Inr [rev cur]"
| "splitCsvLine_acc cap cur (c # cs) =
     (if c = CHR '','' then
        (if cap < int (count_dquotes cs div 2) then Inl RangeError
         else if even (count_dquotes cs) then
           (case splitCsvLine_acc cap [] cs of
              Inl e \<Rightarrow> Inl e
            | Inr cols \<Rightarrow> Inr (rev cur # cols))
         else splitCsvLine_acc cap (c # cur) cs)
      else splitCsvLine_acc cap (c # cur) cs)"

definition splitCsvLine :: "int \<Rightarrow> string \<Rightarrow> js_error + string list" where
  "splitCsvLine cap line = splitCsvLine_acc cap [] line"

definition isLineEmpty :: "string \<Rightarrow> bool" where
  "isLineEmpty line =
     (if line = [] \<or> js_trim line = [] then True
      else let stripped = js_trim (remove_char CHR '','' line) in length stripped = 0)"

text \<open>\<^verbatim>\<open>csvText.split(/\r\n|\n/)\<close>: at a CR followed by LF both are the separator,
  at any other LF the LF alone.\<close>

fun split_lines_acc :: "string \<Rightarrow> string \<Rightarrow> string list" where
  "split_lines_acc cur [] = [rev cur]"
| "split_lines_acc cur (c # cs) =
     (if c = CHR 0x0D \<and> cs \<noteq> [] \<and> hd cs = CHR 0x0A then rev cur # split_lines_acc [] (tl cs)
      else if c = CHR 0x0A then rev cur # split_lines_acc [] cs
      else split_lines_acc (c # cur) cs)"

definition split_lines :: "string \<Rightarrow> string list" where
  "split_lines csvText = split_lines_acc [] csvText"

subsection \<open>\<^verbatim>\<open>detectFormat\<close>, \<^verbatim>\<open>extractPeriod\<close> and the header row\<close>

function detectFormat_loop :: "string list \<Rightarrow> nat \<Rightarrow> nat \<Rightarrow> js_error + CsvFormat" where
  "detectFormat_loop lines limit i =
     (if i < limit then
        (case js_nth lines i of
           None \<Rightarrow> Inl TypeError
         | Some line \<Rightarrow>
             if js_includes line ''Produtos'' \<and> js_includes line ''Total Venda''
                \<and> js_includes line ''Data'' then Inr SELF_SERVICE
             else if js_includes line ''Nome Terminal'' \<and> js_includes line ''Venda (R$)''
                \<and> js_includes line ''Data'' then Inr ATTENDANT
             else detectFormat_loop lines limit (i + 1))
      else Inr UNKNOWN_FORMAT)"
  by pat_completeness auto
termination
  by (relation "measure (\<lambda>(lines, limit, i). limit - i)") auto

definition detectFormat :: "string list \<Rightarrow> js_error + CsvFormat" where
  "detectFormat lines = detectFormat_loop lines (min (length lines) 5000) 0"

definition default_period :: string where
  "default_period = ''Per'' @ [CHR 0xED] @ ''odo n'' @ [CHR 0xE3] @ ''o identificado''"

definition default_unitName :: string where
  "default_unitName = ''Unidade Desconhecida''"

definition period_text :: "string \<Rightarrow> string" where
  "period_text periodPart =
     js_trim (strip_quotes (js_replace_first '' ate '' '' - ''
       (js_replace_first ''Vendas de '' [] periodPart)))"

function extractPeriod_loop :: "string list \<Rightarrow> nat \<Rightarrow> nat \<Rightarrow> js_error + string" where
  "extractPeriod_loop lines limit i =
     (if i < limit then
        (case js_nth lines i of
           None \<Rightarrow> Inl TypeError
         | Some line \<Rightarrow>
             if js_includes line ''Vendas de'' then
               (case find (\<lambda>p. js_includes p ''Vendas de'') (js_split CHR '','' line) of
                  None \<Rightarrow> extractPeriod_loop lines limit (i + 1)
                | Some periodPart \<Rightarrow>
                    if periodPart \<noteq> [] then Inr (period_text periodPart)
                    else extractPeriod_loop lines limit (i + 1))
             else extractPeriod_loop lines limit (i + 1))
      else Inr default_period)"
  by pat_completeness auto
termination
  by (relation "measure (\<lambda>(lines, limit, i). limit - i)") auto

definition extractPeriod :: "string list \<Rightarrow> js_error + string" where
  "extractPeriod lines = extractPeriod_loop lines (min (length lines) 5000) 0"

text \<open>Lines 97 to 105: the index of the first line that holds both \<^verbatim>\<open>Data\<close> and
  \<^verbatim>\<open>Hora\<close>, or \<open>-1\<close>.\<close>

function headerIndex_loop :: "string list \<Rightarrow> nat \<Rightarrow> js_error + int" where
  "headerIndex_loop lines i =
     (if i < length lines then
        (case js_nth lines i of
           None \<Rightarrow> Inl TypeError
         | Some line \<Rightarrow>
             if js_includes line ''Data'' \<and> js_includes line ''Hora'' then Inr (int i)
             else headerIndex_loop lines (i + 1))
      else Inr (- 1))"
  by pat_completeness auto
termination
  by (relation "measure (\<lambda>(lines, i). length lines - i)") auto

text \<open>Lines 108 to 110: what \<^verbatim>\<open>console.warn\<close> is given.\<close>

definition header_warning :: "CsvFormat \<Rightarrow> int \<Rightarrow> string list" where
  "header_warning format headerIndex =
     (if headerIndex = - 1 \<and> format \<noteq> UNKNOWN_FORMAT
      then [''Format detected but header row not found. Parsing might fail.''] else [])"

subsection \<open>The built-in \<^verbatim>\<open>Date\<close>\<close>

text \<open>
  ECMA-262, section "Date Objects". A time value is a number of milliseconds since
  the epoch, here an integer; \<open>None\<close> is the time value \<open>NaN\<close> of an invalid date.
  The arithmetic is exact: it is the arithmetic of doubles as long as every
  intermediate value stays below \<open>2^53\<close> in magnitude. The time zone of the host
  is read by \<^verbatim>\<open>new Date(y, m, d, h, mi, s)\<close>, which takes its arguments as local time
  (\<open>UTC(t) = t - LocalTZA(t, false)\<close>), and by the \<^verbatim>\<open>get\<close> methods, which give the
  fields of local time (\<open>LocalTime(t) = t + LocalTZA(t, true)\<close>).
\<close>

definition msPerDay :: int where "msPerDay = 86400000"
definition msPerHour :: int where "msPerHour = 3600000"
definition msPerMinute :: int where "msPerMinute = 60000"
definition msPerSecond :: int where "msPerSecond = 1000"

definition Day :: "int \<Rightarrow> int" where
  "Day t = t div msPerDay"

definition DaysInYear :: "int \<Rightarrow> int" where
  "DaysInYear y =
     (if y mod 4 \<noteq> 0 then 365 else if y mod 100 \<noteq> 0 then 366
      else if y mod 400 \<noteq> 0 then 365 else 366)"

definition DayFromYear :: "int \<Rightarrow> int" where
  "DayFromYear y =
     365 * (y - 1970) + (y - 1969) div 4 - (y - 1901) div 100 + (y - 1601) div 400"

text \<open>\<open>YearFromTime t\<close> is the largest year that starts at or before \<open>t\<close>. The
  search goes up from a year that starts at or before day \<open>d\<close>.\<close>

function year_search :: "int \<Rightarrow> int \<Rightarrow> int" where
  "year_search d y = (if DayFromYear (y + 1) \<le> d then year_search d (y + 1) else y)"
  by pat_completeness auto
termination
proof (relation "measure (\<lambda>(d, y). nat (d - DayFromYear y))")
  show "wf (measure (\<lambda>(d, y). nat (d - DayFromYear y)))"
    by simp
next
  fix d y :: int
  assume le: "DayFromYear (y + 1) \<le> d"
  have step: "365 * (y - 1970) + a - b + c < 365 * (y + 1 - 1970) + a' - b' + c'"
    if "a \<le> a'" "b' \<le> b + 1" "c \<le> c'" for a b c a' b' c' :: int
    using that by (simp add: algebra_simps)
  have "(y - 1969) div 4 \<le> (y + 1 - 1969) div 4"
    by (rule zdiv_mono1) simp_all
  moreover have "(y + 1 - 1901) div 100 \<le> (y - 1901) div 100 + 1"
    by linarith
  moreover have "(y - 1601) div 400 \<le> (y + 1 - 1601) div 400"
    by (rule zdiv_mono1) simp_all
  ultimately have "DayFromYear y < DayFromYear (y + 1)"
    unfolding DayFromYear_def by (rule step)
  with le show "((d, y + 1), (d, y)) \<in> measure (\<lambda>(d, y). nat (d - DayFromYear y))"
    by simp
qed

definition YearFromDay :: "int \<Rightarrow> int" where
  "YearFromDay d = year_search d (1970 + (if 0 \<le> d then d div 366 else d div 365))"

definition YearFromTime :: "int \<Rightarrow> int" where
  "YearFromTime t = YearFromDay (Day t)"

definition InLeapYear :: "int \<Rightarrow> int" where
  "InLeapYear t = (if DaysInYear (YearFromTime t) = 366 then 1 else 0)"

definition DayWithinYear :: "int \<Rightarrow> int" where
  "DayWithinYear t = Day t - DayFromYear (YearFromTime t)"

definition MonthFromTime :: "int \<Rightarrow> int" where
  "MonthFromTime t =
     (let d = DayWithinYear t; l = InLeapYear t
      in if d < 31 then 0
         else if d < 59 + l then 1
         else if d < 90 + l then 2
         else if d < 120 + l then 3
         else if d < 151 + l then 4
         else if d < 181 + l then 5
         else if d < 212 + l then 6
         else if d < 243 + l then 7
         else if d < 273 + l then 8
         else if d < 304 + l then 9
         else if d < 334 + l then 10
         else 11)"

definition DateFromTime :: "int \<Rightarrow> int" where
  "DateFromTime t =
     (let d = DayWithinYear t; l = InLeapYear t; m = MonthFromTime t
      in if m = 0 then d + 1
         else if m = 1 then d - 30
         else if m = 2 then d - 58 - l
         else if m = 3 then d - 89 - l
         else if m = 4 then d - 119 - l
         else if m = 5 then d - 150 - l
         else if m = 6 then d - 180 - l
         else if m = 7 then d - 211 - l
         else if m = 8 then d - 242 - l
         else if m = 9 then d - 272 - l
         else if m = 10 then d - 303 - l
         else d - 333 - l)"

definition WeekDay :: "int \<Rightarrow> int" where
  "WeekDay t = (Day t + 4) mod 7"

definition HourFromTime :: "int \<Rightarrow> int" where
  "HourFromTime t = (t div msPerHour) mod 24"

definition MinFromTime :: "int \<Rightarrow> int" where
  "MinFromTime t = (t div msPerMinute) mod 60"

definition SecFromTime :: "int \<Rightarrow> int" where
  "SecFromTime t = (t div msPerSecond) mod 60"

definition MakeTime :: "int \<Rightarrow> int \<Rightarrow> int \<Rightarrow> int \<Rightarrow> int" where
  "MakeTime hour minute sec ms =
     hour * msPerHour + minute * msPerMinute + sec * msPerSecond + ms"

text \<open>The first day of month \<open>mn\<close> (0 to 11) within a year of 365 + \<open>l\<close> days.\<close>

definition month_start :: "int \<Rightarrow> int \<Rightarrow> int" where
  "month_start mn l =
     (if mn = 0 then 0
      else if mn = 1 then 31
      else if mn = 2 then 59 + l
      else if mn = 3 then 90 + l
      else if mn = 4 then 120 + l
      else if mn = 5 then 151 + l
      else if mn = 6 then 181 + l
      else if mn = 7 then 212 + l
      else if mn = 8 then 243 + l
      else if mn = 9 then 273 + l
      else if mn = 10 then 304 + l
      else 334 + l)"

text \<open>\<open>MakeDay\<close>: the day number of the first of month \<open>mn\<close> of year \<open>ym\<close>, plus
  \<open>date - 1\<close>; a month outside 0 to 11 carries into the year.\<close>

definition MakeDay :: "int \<Rightarrow> int \<Rightarrow> int \<Rightarrow> int" where
  "MakeDay year month date =
     (let ym = year + month div 12; mn = month mod 12
      in DayFromYear ym + month_start mn (if DaysInYear ym = 366 then 1 else 0) + date - 1)"

definition MakeDate :: "int \<Rightarrow> int \<Rightarrow> int" where
  "MakeDate day time = day * msPerDay + time"

definition TimeClip :: "int \<Rightarrow> int option" where
  "TimeClip t = (if \<bar>t\<bar> > 8640000000000000 then None else Some t)"

definition UTC :: "host \<Rightarrow> int \<Rightarrow> int" where
  "UTC h t = t - offset_at_local h t"

definition LocalTime :: "host \<Rightarrow> int \<Rightarrow> int" where
  "LocalTime h t = t + offset_at_utc h t"

text \<open>\<^verbatim>\<open>new Date(year, month, date, hours, minutes, seconds)\<close>, each argument a
  number (\<open>None\<close> for \<open>NaN\<close>): a year from 0 to 99 is taken as 1900 + year, the
  fields are read as local time.\<close>

definition js_new_Date ::
  "host \<Rightarrow> int option \<Rightarrow> int option \<Rightarrow> int option \<Rightarrow> int option \<Rightarrow> int option \<Rightarrow> int option
   \<Rightarrow> int option" where
  "js_new_Date h year month date hours minutes seconds =
     (case (year, month, date, hours, minutes, seconds) of
        (Some y, Some m, Some dt, Some hh, Some mi, Some s) \<Rightarrow>
          (let yr = (if 0 \<le> y \<and> y \<le> 99 then 1900 + y else y);
               finalDate = MakeDate (MakeDay yr m dt) (MakeTime hh mi s 0)
           in TimeClip (UTC h finalDate))
      | _ \<Rightarrow> None)"

definition getFullYear :: "host \<Rightarrow> int option \<Rightarrow> int option" where
  "getFullYear h d = map_option (\<lambda>t. YearFromTime (LocalTime h t)) d"

definition getMonth :: "host \<Rightarrow> int option \<Rightarrow> int option" where
  "getMonth h d = map_option (\<lambda>t. MonthFromTime (LocalTime h t)) d"

definition getDate :: "host \<Rightarrow> int option \<Rightarrow> int option" where
  "getDate h d = map_option (\<lambda>t. DateFromTime (LocalTime h t)) d"

definition getHours :: "host \<Rightarrow> int option \<Rightarrow> int option" where
  "getHours h d = map_option (\<lambda>t. HourFromTime (LocalTime h t)) d"

definition getMinutes :: "host \<Rightarrow> int option \<Rightarrow> int option" where
  "getMinutes h d = map_option (\<lambda>t. MinFromTime (LocalTime h t)) d"

definition getSeconds :: "host \<Rightarrow> int option \<Rightarrow> int option" where
  "getSeconds h d = map_option (\<lambda>t. SecFromTime (LocalTime h t)) d"

definition getDay :: "host \<Rightarrow> int option \<Rightarrow> int option" where
  "getDay h d = map_option (\<lambda>t. WeekDay (LocalTime h t)) d"

subsection \<open>The result types\<close>

text \<open>\<^verbatim>\<open>Transaction\<close>, \<^verbatim>\<open>DashboardMetadata\<close> and \<^verbatim>\<open>ParseResult\<close>, with the fields the
  source fills in (lines 193 to 214). The fields \<^verbatim>\<open>id\<close> and \<^verbatim>\<open>type\<close> are \<open>id_tx\<close> and
  \<open>type_tx\<close> here; \<open>dayOfWeek\<close> is \<open>None\<close> where \<^verbatim>\<open>getDay()\<close> gives \<open>NaN\<close>.\<close>

record Transaction =
  id_tx :: string
  date :: "int option"
  rawDate :: string
  rawTime :: string
  productName :: string
  type_tx :: CycleType
  amount :: jsnum
  paymentMethod :: string
  machine :: string
  dayOfWeek :: "int option"

record DashboardMetadata =
  unitName :: string
  period :: string
  reportType :: string

record ParseResult =
  metadata :: DashboardMetadata
  transactions :: "Transaction list"

subsection \<open>The row mapper (lines 114 to 205)\<close>

text \<open>The decimal text of an array index, as the template literal of line 194
  prints it.\<close>

fun show_nat :: "nat \<Rightarrow> string" where
  "show_nat n =
     (if n < 10 then [char_of (48 + n)]
      else show_nat (n div 10) @ [char_of (48 + n mod 10)])"

text \<open>\<^verbatim>\<open>cols[k]?.replace(/['"]/g, '').trim() || d\<close>: the default where the column is
  missing or cleans to the empty string.\<close>

definition col_or :: "string list \<Rightarrow> nat \<Rightarrow> string \<Rightarrow> string" where
  "col_or cols k d =
     (case js_nth cols k of
        None \<Rightarrow> d
      | Some c \<Rightarrow> let v = js_trim (strip_quotes c) in if v = [] then d else v)"

text \<open>\<^verbatim>\<open>/^\d{2}\/\d{2}\/\d{4}$/\<close>: ten characters, digits around two slashes.\<close>

fun date_pattern :: "string \<Rightarrow> bool" where
  "date_pattern [d1, d2, s1, m1, m2, s2, y1, y2, y3, y4] =
     (isDigit d1 \<and> isDigit d2 \<and> s1 = CHR ''/'' \<and> isDigit m1 \<and> isDigit m2 \<and> s2 = CHR ''/''
      \<and> isDigit y1 \<and> isDigit y2 \<and> isDigit y3 \<and> isDigit y4)"
| "date_pattern _ = False"

text \<open>\<^verbatim>\<open>parseInt(parts[k], 10)\<close>: a missing element is read as the text
  \<^verbatim>\<open>undefined\<close>. \<^verbatim>\<open>parseInt(parts[k] || '0', 10)\<close>: a missing or empty element is
  read as \<^verbatim>\<open>0\<close>.\<close>

definition parseInt_at :: "string list \<Rightarrow> nat \<Rightarrow> int option" where
  "parseInt_at parts k =
     (case js_nth parts k of None \<Rightarrow> js_parseInt ''undefined'' | Some s \<Rightarrow> js_parseInt s)"

definition parseInt_or0 :: "string list \<Rightarrow> nat \<Rightarrow> int option" where
  "parseInt_or0 parts k =
     (case js_nth parts k of
        None \<Rightarrow> js_parseInt ''0''
      | Some s \<Rightarrow> if s = [] then js_parseInt ''0'' else js_parseInt s)"

definition dateParts_of :: "string \<Rightarrow> string list" where
  "dateParts_of dateRaw = js_split CHR ''/'' dateRaw"

definition timeParts_of :: "string \<Rightarrow> string list" where
  "timeParts_of timeRaw =
     (if timeRaw \<noteq> [] then js_split CHR '':'' timeRaw else [''00'', ''00'', ''00''])"

text \<open>Lines 184 to 191: the timestamp of a row.\<close>

definition jsDate_of :: "host \<Rightarrow> string \<Rightarrow> string \<Rightarrow> int option" where
  "jsDate_of h dateRaw timeRaw =
     (let dateParts = dateParts_of dateRaw; timeParts = timeParts_of timeRaw
      in js_new_Date h
           (parseInt_at dateParts 2)
           (map_option (\<lambda>m. m - 1) (parseInt_at dateParts 1))
           (parseInt_at dateParts 0)
           (parseInt_or0 timeParts 0)
           (parseInt_or0 timeParts 1)
           (parseInt_or0 timeParts 2))"

text \<open>Lines 173 to 204, the common processing of a row whose fields were read:
  \<open>None\<close> where the row is skipped (\<^verbatim>\<open>continue\<close>), the transaction that is pushed
  otherwise.\<close>

definition common_processing ::
  "host \<Rightarrow> nat \<Rightarrow> string \<Rightarrow> string \<Rightarrow> string \<Rightarrow> string \<Rightarrow> string \<Rightarrow> Transaction option" where
  "common_processing h i machineRaw amountRaw dateRaw timeRaw paymentRaw =
     (if dateRaw = [] \<or> \<not> date_pattern dateRaw then None
      else if length (dateParts_of dateRaw) \<noteq> 3 then None
      else
        let jsDate = jsDate_of h dateRaw timeRaw
        in Some \<lparr> id_tx = show_nat i @ ''-'' @ dateRaw @ ''-'' @ timeRaw @ ''-'' @ machineRaw,
                  date = jsDate,
                  rawDate = dateRaw,
                  rawTime = timeRaw,
                  productName = machineRaw,
                  type_tx = determineCycleType machineRaw,
                  amount = parseCurrency amountRaw,
                  paymentMethod = paymentRaw,
                  machine = machineRaw,
                  dayOfWeek = getDay h jsDate \<rparr>)"

text \<open>The two variables the loop updates: \<^verbatim>\<open>unitName\<close> and \<^verbatim>\<open>transactions\<close>.\<close>

record loop_state =
  cur_unitName :: string
  cur_transactions :: "Transaction list"

definition push_row :: "Transaction option \<Rightarrow> loop_state \<Rightarrow> loop_state" where
  "push_row r st =
     (case r of None \<Rightarrow> st
      | Some t \<Rightarrow> st\<lparr>cur_transactions := cur_transactions st @ [t]\<rparr>)"

text \<open>Lines 138 to 146: the first of the first 50 lines that starts with
  \<^verbatim>\<open>Operador:\<close> and has a non-empty second column gives the unit name.\<close>

function operador_loop ::
  "int \<Rightarrow> string list \<Rightarrow> nat \<Rightarrow> nat \<Rightarrow> string \<Rightarrow> js_error + string" where
  "operador_loop cap lines limit j u =
     (if j < limit then
        (case js_nth lines j of
           None \<Rightarrow> Inl TypeError
         | Some line \<Rightarrow>
             if js_startsWith line ''Operador:'' then
               (case splitCsvLine cap line of
                  Inl e \<Rightarrow> Inl e
                | Inr parts \<Rightarrow>
                    (case js_nth parts 1 of
                       None \<Rightarrow> operador_loop cap lines limit (j + 1) u
                     | Some part \<Rightarrow>
                         if part \<noteq> [] then Inr (js_trim (strip_quotes part))
                         else operador_loop cap lines limit (j + 1) u))
             else operador_loop cap lines limit (j + 1) u)
      else Inr u)"
  by pat_completeness auto
termination
  by (relation "measure (\<lambda>(cap, lines, limit, j, u). limit - j)") auto

text \<open>Lines 163 to 168: the unit name an attendant row gives.\<close>

definition attendant_unitName :: "string list \<Rightarrow> string \<Rightarrow> string" where
  "attendant_unitName cols u =
     (case js_nth cols 0 of
        None \<Rightarrow> u
      | Some c0 \<Rightarrow>
          if u = default_unitName \<and> c0 \<noteq> [] then
            (let potentialName = js_trim (strip_quotes c0)
             in if potentialName \<noteq> [] \<and> js_toLowerCase potentialName \<noteq> ''cliente''
                then potentialName else u)
          else u)"

text \<open>One pass of the loop body for the line at index \<open>i\<close>.\<close>

definition row_step ::
  "host \<Rightarrow> CsvFormat \<Rightarrow> string list \<Rightarrow> nat \<Rightarrow> loop_state \<Rightarrow> js_error + loop_state" where
  "row_step h format lines i st =
     (case js_nth lines i of
        None \<Rightarrow> Inl TypeError
      | Some raw \<Rightarrow>
          let line = js_trim raw in
          if js_startsWith line ''Total'' then Inr st
          else
            case splitCsvLine (regexp_capacity h) line of
              Inl e \<Rightarrow> Inl e
            | Inr cols \<Rightarrow>
                if format = SELF_SERVICE then
                  (if length cols < 12 then Inr st
                   else
                     case (if cur_unitName st = default_unitName \<and> length lines > 0
                           then operador_loop (regexp_capacity h) lines (min (length lines) 50) 0
                                  (cur_unitName st)
                           else Inr (cur_unitName st)) of
                       Inl e \<Rightarrow> Inl e
                     | Inr u \<Rightarrow>
                         Inr (push_row
                           (common_processing h i (col_or cols 6 []) (col_or cols 9 ''0'')
                              (col_or cols 10 []) (col_or cols 11 ''00:00:00'') (col_or cols 4 []))
                           (st\<lparr>cur_unitName := u\<rparr>)))
                else if format = ATTENDANT then
                  (if length cols < 14 then Inr st
                   else
                     case js_nth cols 12 of
                       None \<Rightarrow> Inr st
                     | Some c12 \<Rightarrow>
                         if c12 = [] \<or> \<not> js_includes c12 ''/'' then Inr st
                         else
                           Inr (push_row
                             (common_processing h i (col_or cols 4 []) (col_or cols 8 ''0'')
                                (col_or cols 12 []) (col_or cols 13 ''00:00:00'') (col_or cols 5 []))
                             (st\<lparr>cur_unitName := attendant_unitName cols (cur_unitName st)\<rparr>)))
                else Inr st)"

function rows_loop ::
  "host \<Rightarrow> CsvFormat \<Rightarrow> string list \<Rightarrow> nat \<Rightarrow> loop_state \<Rightarrow> js_error + loop_state" where
  "rows_loop h format lines i st =
     (if i < length lines then
        (case row_step h format lines i st of
           Inl e \<Rightarrow> Inl e
         | Inr st' \<Rightarrow> rows_loop h format lines (i + 1) st')
      else Inr st)"
  by pat_completeness auto
termination
  by (relation "measure (\<lambda>(h, format, lines, i, st). length lines - i)") auto

subsection \<open>\<^verbatim>\<open>parseCSV\<close>\<close>

text \<open>Lines 88 and 89: the lines that are kept.\<close>

definition lines_of :: "string \<Rightarrow> string list" where
  "lines_of csvText = filter (\<lambda>line. \<not> isLineEmpty line) (split_lines csvText)"

definition startIndex_of :: "int \<Rightarrow> nat" where
  "startIndex_of headerIndex = (if headerIndex = - 1 then 0 else nat (headerIndex + 1))"

text \<open>\<^verbatim>\<open>parseCSV\<close>, on the host \<open>h\<close>. \<open>Inl\<close> is a thrown error, \<open>Inr\<close> the value
  returned.\<close>

definition parseCSV :: "host \<Rightarrow> string \<Rightarrow> js_error + ParseResult" where
  "parseCSV h csvText =
     (let lines = lines_of csvText in
      case detectFormat lines of
        Inl e \<Rightarrow> Inl e
      | Inr format \<Rightarrow>
          (case extractPeriod lines of
             Inl e \<Rightarrow> Inl e
           | Inr period' \<Rightarrow>
               (case headerIndex_loop lines 0 of
                  Inl e \<Rightarrow> Inl e
                | Inr headerIndex \<Rightarrow>
                    (case rows_loop h format lines (startIndex_of headerIndex)
                            \<lparr>cur_unitName = default_unitName, cur_transactions = []\<rparr> of
                       Inl e \<Rightarrow> Inl e
                     | Inr st \<Rightarrow>
                         Inr \<lparr> metadata =
                                 \<lparr> unitName = cur_unitName st,
                                   period = period',
                                   reportType = (if format = ATTENDANT then ''ATTENDANT''
                                                 else ''SELF_SERVICE'') \<rparr>,
                               transactions = cur_transactions st \<rparr>))))"

text \<open>What a call of \<^verbatim>\<open>parseCSV\<close> writes with \<^verbatim>\<open>console.warn\<close>.\<close>

definition parseCSV_warnings :: "string \<Rightarrow> string list" where
  "parseCSV_warnings csvText =
     (let lines = lines_of csvText in
      case (detectFormat lines, headerIndex_loop lines 0) of
        (Inr format, Inr headerIndex) \<Rightarrow> header_warning format headerIndex
      | _ \<Rightarrow> [])"

declare year_search.simps [simp del]
declare detectFormat_loop.simps [simp del]
declare extractPeriod_loop.simps [simp del]
declare headerIndex_loop.simps [simp del]
declare operador_loop.simps [simp del]
declare rows_loop.simps [simp del]
declare show_nat.simps [simp del]

subsection \<open>The classifier of the specification (section 4.7)\<close>

text \<open>Following the specification's words: the name is searched for the keyword
  \<^verbatim>\<open>lava\<close>, then for \<^verbatim>\<open>seca\<close>, ignoring case: at some position each letter of the
  keyword stands in the name as it is or as its capital; the first keyword
  found decides.\<close>

definition ascii_upper :: "char \<Rightarrow> char" where
  "ascii_upper k = (if 97 \<le> (of_char k :: nat) \<and> (of_char k :: nat) \<le> 122
                    then char_of ((of_char k :: nat) - 32) else k)"

fun prefix_ignoring_case :: "string \<Rightarrow> string \<Rightarrow> bool" where
  "prefix_ignoring_case [] s = True"
| "prefix_ignoring_case (k # ks) [] = False"
| "prefix_ignoring_case (k # ks) (c # cs) =
     ((c = k \<or> c = ascii_upper k) \<and> prefix_ignoring_case ks cs)"

fun contains_ignoring_case :: "string \<Rightarrow> string \<Rightarrow> bool" where
  "contains_ignoring_case kw [] = (kw = [])"
| "contains_ignoring_case kw (c # cs) =
     (prefix_ignoring_case kw (c # cs) \<or> contains_ignoring_case kw cs)"

definition classify :: "string \<Rightarrow> CycleType" where
  "classify name =
     (if contains_ignoring_case ''lava'' name then WASH
      else if contains_ignoring_case ''seca'' name then DRY
      else UNKNOWN)"

text \<open>A small letter a to z.\<close>

definition lower_letter :: "char \<Rightarrow> bool" where
  "lower_letter k = (97 \<le> (of_char k :: nat) \<and> (of_char k :: nat) \<le> 122)"

subsection \<open>Example hosts and inputs\<close>

text \<open>A host on UTC, and a host in the zone America/Sao_Paulo as it has been since
  18 February 2018: three hours behind UTC, but two hours behind from
  2018-11-04T03:00Z (when local midnight became one o'clock) to 2019-02-17T02:00Z.
  A local time that a change skips or repeats is read with the offset before
  the change. Both engines hold a million repetitions.\<close>

definition utc_host :: host where
  "utc_host = \<lparr>regexp_capacity = 1000000, offset_at_utc = (\<lambda>t. 0), offset_at_local = (\<lambda>t. 0)\<rparr>"

definition sao_paulo_host :: host where
  "sao_paulo_host =
     \<lparr>regexp_capacity = 1000000,
      offset_at_utc = (\<lambda>t. if 1541300400000 \<le> t \<and> t < 1550368800000 then - 7200000 else - 10800000),
      offset_at_local =
        (\<lambda>t. if 1541293200000 \<le> t \<and> t < 1550361600000 then - 7200000 else - 10800000)\<rparr>"

text \<open>An attendant report: the header row and one data row, whose time is
  \<^verbatim>\<open>09:15:00\<close>.\<close>

definition attendant_header :: string where
  "attendant_header =
     ''Cliente,Nome Terminal,a,b,Maquina,Pagamento,c,d,Venda (R$),e,f,g,Data,Hora'' @ [CHR 0x0A]"

definition attendant_row :: string where
  "attendant_row =
     ''Cliente X,,,,Secadora 1,Cartao,,,'' @ [CHR 0x22] @ ''12,00'' @ [CHR 0x22]
     @ '',,,,05/03/2024,09:15:00'' @ [CHR 0x0A]"

definition attendant_example :: string where
  "attendant_example = attendant_header @ attendant_row"

text \<open>The same report with the time \<^verbatim>\<open>ab:cd:ef\<close>.\<close>

definition attendant_bad_time :: string where
  "attendant_bad_time =
     attendant_header
     @ ''Cliente X,,,,Secadora 1,Cartao,,,'' @ [CHR 0x22] @ ''12,00'' @ [CHR 0x22]
     @ '',,,,05/03/2024,ab:cd:ef'' @ [CHR 0x0A]"

text \<open>An attendant report whose first row names the unit \<^verbatim>\<open>Unidade Desconhecida\<close>
  and whose second row names it \<^verbatim>\<open>Loja B\<close>.\<close>

definition placeholder_example :: string where
  "placeholder_example =
     attendant_header
     @ ''Unidade Desconhecida,,,,Secadora 1,Cartao,,,12,,,,05/03/2024,09:15:00'' @ [CHR 0x0A]
     @ ''Loja B,,,,Lavadora 2,Pix,,,10,,,,06/03/2024,10:00:00'' @ [CHR 0x0A]"

text \<open>A text of one line: a comma followed by \<open>n\<close> pairs of double quotes.\<close>

definition quote_pairs_line :: "nat \<Rightarrow> string" where
  "quote_pairs_line n = CHR '','' # replicate (2 * n) (CHR 0x22)"

subsection \<open>Lines within the capacity of the engine\<close>

text \<open>A line has no more pairs of double quotes than the regular expression
  engine holds repetitions; a text is within the capacity when each of its kept
  lines is.\<close>

definition line_within :: "int \<Rightarrow> string \<Rightarrow> bool" where
  "line_within cap line = (int (count_dquotes line div 2) \<le> cap)"

definition within_capacity :: "int \<Rightarrow> string \<Rightarrow> bool" where
  "within_capacity cap csvText = list_all (line_within cap) (lines_of csvText)"

subsection \<open>Junk lines (section 4.1 of the specification)\<close>

text \<open>A text of blank, white-space-only and delimiter-only lines: it holds
  nothing but white space (line ends included) and commas.\<close>

definition junk_text :: "string \<Rightarrow> bool" where
  "junk_text j = list_all (\<lambda>c. js_isWhiteSpace c \<or> c = CHR '','') j"

subsection \<open>Calendar dates and clock times (section 4.5 of the specification)\<close>

text \<open>Following the specification's words: a date is day/month/year with the
  month counted from 1, a time is on the 24 hour clock. A date of the calendar
  has a month from 1 to 12 and a day that the month has; a year below 100 is not
  among them, since \<^verbatim>\<open>Date\<close> reads it as a year of the twentieth century.\<close>

definition days_in_month :: "int \<Rightarrow> int \<Rightarrow> int" where
  "days_in_month y m =
     (if m = 2 then (if DaysInYear y = 366 then 29 else 28)
      else if m = 4 \<or> m = 6 \<or> m = 9 \<or> m = 11 then 30 else 31)"

definition valid_calendar_date :: "int \<Rightarrow> int \<Rightarrow> int \<Rightarrow> bool" where
  "valid_calendar_date y m d =
     (100 \<le> y \<and> 1 \<le> m \<and> m \<le> 12 \<and> 1 \<le> d \<and> d \<le> days_in_month y m)"

definition valid_clock_time :: "int \<Rightarrow> int \<Rightarrow> int \<Rightarrow> bool" where
  "valid_clock_time h mi s = (0 \<le> h \<and> h < 24 \<and> 0 \<le> mi \<and> mi < 60 \<and> 0 \<le> s \<and> s < 60)"

subsection \<open>The round trip of the calendar fields, in the claim's words\<close>

text \<open>The calendar fields of the timestamp of a transaction equal the year,
  month (less one), day, hour, minute and second read from its \<open>rawDate\<close> and
  \<open>rawTime\<close>.\<close>

definition calendar_fields_agree :: "host \<Rightarrow> Transaction \<Rightarrow> bool" where
  "calendar_fields_agree h t =
     (let dateParts = dateParts_of (rawDate t); timeParts = timeParts_of (rawTime t)
      in getFullYear h (date t) = parseInt_at dateParts 2
         \<and> getMonth h (date t) = map_option (\<lambda>m. m - 1) (parseInt_at dateParts 1)
         \<and> getDate h (date t) = parseInt_at dateParts 0
         \<and> getHours h (date t) = parseInt_or0 timeParts 0
         \<and> getMinutes h (date t) = parseInt_or0 timeParts 1
         \<and> getSeconds h (date t) = parseInt_or0 timeParts 2)"

text \<open>The raw date of a transaction is a date of the calendar and its raw time
  a time of the 24 hour clock.\<close>

definition raw_fields_valid :: "Transaction \<Rightarrow> bool" where
  "raw_fields_valid t =
     (let dateParts = dateParts_of (rawDate t); timeParts = timeParts_of (rawTime t)
      in case (parseInt_at dateParts 2, parseInt_at dateParts 1, parseInt_at dateParts 0,
               parseInt_or0 timeParts 0, parseInt_or0 timeParts 1, parseInt_or0 timeParts 2) of
           (Some y, Some m, Some d, Some hh, Some mi, Some s) \<Rightarrow>
              valid_calendar_date y m d \<and> valid_clock_time hh mi s
         | _ \<Rightarrow> False)"

text \<open>The zone of the host does not skip the local time \<open>t\<close>: the offset by which
  \<open>t\<close> is read is the offset of the zone at the instant that \<open>t\<close> then names, so
  that instant has the local time \<open>t\<close>. (A local time that a forward change of the
  clock skips is read with the offset before the change, and names an instant
  after it, whose local time is later than \<open>t\<close>.) The offset is at most a day,
  as the offset of every time zone is.\<close>

definition zone_keeps :: "host \<Rightarrow> int \<Rightarrow> bool" where
  "zone_keeps h t =
     (\<bar>offset_at_local h t\<bar> \<le> msPerDay \<and> offset_at_utc h (UTC h t) = offset_at_local h t)"

text \<open>The zone of the host does not skip the local time that the raw date and
  raw time of a transaction name.\<close>

definition raw_time_kept :: "host \<Rightarrow> Transaction \<Rightarrow> bool" where
  "raw_time_kept h t =
     (let dateParts = dateParts_of (rawDate t); timeParts = timeParts_of (rawTime t)
      in case (parseInt_at dateParts 2, parseInt_at dateParts 1, parseInt_at dateParts 0,
               parseInt_or0 timeParts 0, parseInt_or0 timeParts 1, parseInt_or0 timeParts 2) of
           (Some y, Some m, Some d, Some hh, Some mi, Some s) \<Rightarrow>
              zone_keeps h (MakeDate (MakeDay y (m - 1) d) (MakeTime hh mi s 0))
         | _ \<Rightarrow> False)"

text \<open>An attendant report whose one row is dated the 31st of February, and the
  transaction it gives on the UTC host.\<close>

definition overflow_example :: string where
  "overflow_example =
     attendant_header
     @ ''Loja,,,,Lavadora 2,Pix,,,10,,,,31/02/2024,10:00:00'' @ [CHR 0x0A]"

definition overflow_transaction :: Transaction where
  "overflow_transaction =
     \<lparr>id_tx = ''1-31/02/2024-10:00:00-Lavadora 2'',
      date = Some 1709373600000, rawDate = ''31/02/2024'',
      rawTime = ''10:00:00'', productName = ''Lavadora 2'',
      type_tx = WASH, amount = Num 10, paymentMethod = ''Pix'',
      machine = ''Lavadora 2'', dayOfWeek = Some 6\<rparr>"

text \<open>An attendant report whose one row is timed half past midnight on the 4th
  of November 2018, and the transaction it gives on the host in Sao Paulo.\<close>

definition skipped_hour_example :: string where
  "skipped_hour_example =
     attendant_header
     @ ''Loja,,,,Lavadora 2,Pix,,,10,,,,04/11/2018,00:30:00'' @ [CHR 0x0A]"

definition skipped_hour_transaction :: Transaction where
  "skipped_hour_transaction =
     \<lparr>id_tx = ''1-04/11/2018-00:30:00-Lavadora 2'',
      date = Some 1541302200000, rawDate = ''04/11/2018'',
      rawTime = ''00:30:00'', productName = ''Lavadora 2'',
      type_tx = WASH, amount = Num 10, paymentMethod = ''Pix'',
      machine = ''Lavadora 2'', dayOfWeek = Some 0\<rparr>"

section \<open>Theorems\<close>

subsection \<open>\<^verbatim>\<open>parseCurrency\<close>\<close>

lemma scale10_nonneg: "0 \<le> m \<Longrightarrow> 0 \<le> scale10 m k"
  by (simp add: scale10_def)

lemma foldl_digits_nonneg:
  "0 \<le> a \<Longrightarrow> list_all isDigit ds \<Longrightarrow>
   0 \<le> foldl (\<lambda>a c. 10 * a + (of_char c - 48)) (a::int) ds"
proof (induction ds arbitrary: a)
  case Nil
  then show ?case by simp
next
  case (Cons c cs)
  from Cons.prems have "48 \<le> (of_char c :: nat)" by (simp add: isDigit_def)
  then have "(48::int) \<le> int (of_char c)" by linarith
  then have "(48::int) \<le> of_char c" by (simp add: of_nat_of_char)
  with Cons.prems have "0 \<le> 10 * a + (of_char c - 48)" by simp
  with Cons show ?case by simp
qed

lemma digits_value_nonneg: "list_all isDigit ds \<Longrightarrow> 0 \<le> digits_value ds"
  unfolding digits_value_def by (rule foldl_digits_nonneg) simp_all

lemma list_all_takeWhile: "list_all P (takeWhile P xs)"
  by (induction xs) simp_all

lemma parse_unsigned_nonneg:
  "parse_unsigned s = NaN \<or> jsnum_nonneg (parse_unsigned s)"
proof -
  have "0 \<le> digits_value (takeWhile isDigit s @ takeWhile isDigit t)" for t
    by (rule digits_value_nonneg) (simp add: list_all_takeWhile)
  moreover have "0 \<le> digits_value (takeWhile isDigit s @ [])"
    by (rule digits_value_nonneg) (simp add: list_all_takeWhile)
  ultimately show ?thesis
    by (auto simp: parse_unsigned_def jsnum_nonneg_def Let_def scale10_nonneg
        split: list.splits)
qed

lemma js_parseFloat_nonneg:
  assumes "CHR ''-'' \<notin> set s"
  shows "js_parseFloat s = NaN \<or> jsnum_nonneg (js_parseFloat s)"
proof (cases "dropWhile js_isWhiteSpace s")
  case Nil
  show ?thesis by (simp add: js_parseFloat_def Nil)
next
  case (Cons c u)
  have "c \<in> set (dropWhile js_isWhiteSpace s)" using Cons by simp
  then have "c \<in> set s" by (rule set_dropWhileD)
  with assms have "c \<noteq> CHR ''-''" by auto
  then show ?thesis
    using parse_unsigned_nonneg[of u] parse_unsigned_nonneg[of "c # u"]
    by (simp add: js_parseFloat_def Cons)
qed

lemma set_js_trim: "set (js_trim s) \<subseteq> set s"
proof -
  have "set (js_trim s) \<subseteq> set (rev (dropWhile js_isWhiteSpace s))"
    unfolding js_trim_def set_rev by (auto dest: set_dropWhileD)
  also have "\<dots> \<subseteq> set s" by (auto dest: set_dropWhileD)
  finally show ?thesis .
qed

lemma set_js_replace_first: "set (js_replace_first p r s) \<subseteq> set s \<union> set r"
proof (induction s)
  case Nil
  show ?case by auto
next
  case (Cons c cs)
  have "set (drop (length p) (c # cs)) \<subseteq> set (c # cs)" by (rule set_drop_subset)
  with Cons show ?case by auto
qed

lemma set_currency_clean: "set (currency_clean v) \<subseteq> set v \<union> {CHR ''.''}"
proof -
  let ?a = "js_trim (js_replace_first ''R$'' [] (strip_quotes v))"
  have a: "set ?a \<subseteq> set v"
    using set_js_trim[of "js_replace_first ''R$'' [] (strip_quotes v)"]
      set_js_replace_first[of "''R$''" "[]" "strip_quotes v"]
    by (auto simp: strip_quotes_def)
  let ?b = "if js_includes ?a ''.'' \<and> js_includes ?a '','' then remove_char CHR ''.'' ?a else ?a"
  have b: "set ?b \<subseteq> set v" using a by (auto simp: remove_char_def)
  have "set (js_replace_first '','' ''.'' ?b) \<subseteq> set ?b \<union> set ''.''"
    by (rule set_js_replace_first)
  with b show ?thesis unfolding currency_clean_def Let_def by auto
qed

lemmas num_eval = js_parseFloat_def parse_unsigned_def js_isWhiteSpace_def js_startsWith_def
  isDigit_def digits_value_def scale10_def exponent_part_def jsnum_neg_def

lemma clean1: "currency_clean ''R$ 15,90'' = ''15.90''" by code_simp
lemma clean2: "currency_clean ''1.200,50'' = ''1200.50''" by code_simp
lemma clean3: "currency_clean ''abc'' = ''abc''" by code_simp
lemma clean4: "currency_clean ''-5'' = ''-5''" by code_simp

text \<open>
  Claim C1, as amended. \<^verbatim>\<open>parseCurrency\<close> is a total function: none of the calls it
  makes can throw. For every input text it never returns \<open>NaN\<close>; it returns 0 on
  the empty text and on a text that \<^verbatim>\<open>parseFloat\<close> cannot read; its value is at least
  0 whenever the input holds no minus sign; and the four examples of the
  specification hold.
\<close>

theorem parseCurrency_total:
  "parseCurrency s \<noteq> NaN
   \<and> (s = [] \<or> js_parseFloat (currency_clean s) = NaN \<longrightarrow> parseCurrency s = Num 0)
   \<and> (CHR ''-'' \<notin> set s \<longrightarrow> jsnum_nonneg (parseCurrency s))
   \<and> parseCurrency ''R$ 15,90'' = Num 15.90
   \<and> parseCurrency ''1.200,50'' = Num 1200.50
   \<and> parseCurrency '''' = Num 0
   \<and> parseCurrency ''abc'' = Num 0"
proof -
  have nn: "jsnum_nonneg (parseCurrency s)" if "CHR ''-'' \<notin> set s"
  proof -
    have "CHR ''-'' \<notin> set (currency_clean s)"
      using that set_currency_clean[of s] by auto
    from js_parseFloat_nonneg[OF this] show ?thesis
      by (auto simp: parseCurrency_def Let_def jsnum_nonneg_def)
  qed
  have e1: "parseCurrency ''R$ 15,90'' = Num 15.90"
    by (simp add: parseCurrency_def clean1) (simp add: num_eval)
  have e2: "parseCurrency ''1.200,50'' = Num 1200.50"
    by (simp add: parseCurrency_def clean2) (simp add: num_eval)
  have e3: "parseCurrency ''abc'' = Num 0"
    by (simp add: parseCurrency_def clean3) (simp add: num_eval)
  show ?thesis using nn e1 e2 e3 by (simp add: parseCurrency_def Let_def)
qed

text \<open>The theorem at the texts \<^verbatim>\<open>15,9\<close> and \<^verbatim>\<open>x\<close>.\<close>

theorem parseCurrency_total_witness:
  "parseCurrency ''15,9'' \<noteq> NaN \<and> js_parseFloat (currency_clean ''x'') = NaN \<and> parseCurrency ''x'' = Num 0
   \<and> CHR ''-'' \<notin> set ''15,9'' \<and> jsnum_nonneg (parseCurrency ''15,9'')"
proof -
  have c: "currency_clean ''x'' = ''x''" by code_simp
  have n: "js_parseFloat (currency_clean ''x'') = NaN" unfolding c by (simp add: num_eval)
  have m: "CHR ''-'' \<notin> set ''15,9''" by simp
  show ?thesis
    using parseCurrency_total[of "''15,9''"] parseCurrency_total[of "''x''"] n m by simp
qed

text \<open>Claim C1 as stated fails: a text with a minus sign gives a negative amount.\<close>

theorem parseCurrency_negative: "parseCurrency ''-5'' = Num (- 5) \<and> \<not> jsnum_nonneg (parseCurrency ''-5'')"
  by (simp add: parseCurrency_def clean4) (simp add: num_eval jsnum_nonneg_def)

subsection \<open>\<^verbatim>\<open>determineCycleType\<close>\<close>

lemma js_toLower_eq_iff:
  assumes "lower_letter k"
  shows "js_toLower c = k \<longleftrightarrow> c = k \<or> c = ascii_upper k"
proof -
  have c: "(of_char c :: nat) < 256" by simp
  have k: "97 \<le> (of_char k :: nat)" "(of_char k :: nat) \<le> 122"
    using assms by (simp_all add: lower_letter_def)
  have eq: "x = y \<longleftrightarrow> (of_char x :: nat) = of_char y" for x y :: char by simp
  show ?thesis
    unfolding js_toLower_def ascii_upper_def Let_def eq[of _ k] eq[of c]
    using c k by (auto simp: )
qed

lemma startsWith_lower:
  "list_all lower_letter kw \<Longrightarrow>
   js_startsWith (js_toLowerCase s) kw = prefix_ignoring_case kw s"
proof (induction kw s rule: prefix_ignoring_case.induct)
  case (1 s)
  then show ?case by (simp add: js_startsWith_def)
next
  case (2 k ks)
  then show ?case by (simp add: js_startsWith_def js_toLowerCase_def)
next
  case (3 k ks c cs)
  then show ?case
    by (simp add: js_startsWith_def js_toLowerCase_def js_toLower_eq_iff)
qed

lemma includes_lower:
  "list_all lower_letter kw \<Longrightarrow>
   js_includes (js_toLowerCase s) kw = contains_ignoring_case kw s"
proof (induction s)
  case Nil
  then show ?case by (simp add: js_toLowerCase_def)
next
  case (Cons c cs)
  have "js_startsWith (js_toLowerCase (c # cs)) kw = prefix_ignoring_case kw (c # cs)"
    using Cons.prems by (rule startsWith_lower)
  moreover have "js_toLowerCase (c # cs) = js_toLower c # js_toLowerCase cs"
    by (simp add: js_toLowerCase_def)
  ultimately show ?case using Cons by simp
qed

lemma lower_lava: "list_all lower_letter ''lava''" by (simp add: lower_letter_def)
lemma lower_seca: "list_all lower_letter ''seca''" by (simp add: lower_letter_def)

text \<open>
  Claim C2. \<^verbatim>\<open>determineCycleType\<close> is the ordered keyword classifier of the
  specification: WASH where the name holds \<^verbatim>\<open>lava\<close> in any mix of cases, else DRY
  where it holds \<^verbatim>\<open>seca\<close>, else UNKNOWN; the empty name gives UNKNOWN, and the four
  examples hold, \<^verbatim>\<open>LAVA-SECA\<close> being WASH.
\<close>

theorem determineCycleType_classifies:
  "determineCycleType name = classify name
   \<and> determineCycleType ''Lavadora 01'' = WASH
   \<and> determineCycleType ''Secadora Turbo'' = DRY
   \<and> determineCycleType '''' = UNKNOWN
   \<and> determineCycleType ''LAVA-SECA'' = WASH"
proof -
  have "determineCycleType name = classify name"
  proof (cases "name = []")
    case True
    then show ?thesis by (simp add: determineCycleType_def classify_def)
  next
    case False
    then show ?thesis
      by (simp add: determineCycleType_def classify_def Let_def
          includes_lower[OF lower_lava] includes_lower[OF lower_seca]
          del: contains_ignoring_case.simps)
  qed
  moreover have "determineCycleType ''Lavadora 01'' = WASH" by code_simp
  moreover have "determineCycleType ''Secadora Turbo'' = DRY" by code_simp
  moreover have "determineCycleType '''' = UNKNOWN" by code_simp
  moreover have "determineCycleType ''LAVA-SECA'' = WASH" by code_simp
  ultimately show ?thesis by simp
qed

subsection \<open>Where the loops return\<close>

lemma js_nth_Some: "i < length xs \<Longrightarrow> js_nth xs i = Some (xs ! i)"
  by (simp add: js_nth_def)

lemma detectFormat_loop_returns:
  "limit \<le> length lines \<Longrightarrow> \<exists>f. detectFormat_loop lines limit i = Inr f"
proof (induction lines limit i rule: detectFormat_loop.induct)
  case (1 lines limit i)
  show ?case
  proof (cases "i < limit")
    case True
    with 1 show ?thesis
      by (subst detectFormat_loop.simps) (simp add: js_nth_Some)
  next
    case False
    then show ?thesis by (subst detectFormat_loop.simps) simp
  qed
qed

lemma detectFormat_returns: "\<exists>f. detectFormat lines = Inr f"
  unfolding detectFormat_def by (rule detectFormat_loop_returns) simp

lemma extractPeriod_loop_returns:
  "limit \<le> length lines \<Longrightarrow> \<exists>p. extractPeriod_loop lines limit i = Inr p"
proof (induction lines limit i rule: extractPeriod_loop.induct)
  case (1 lines limit i)
  show ?case
  proof (cases "i < limit")
    case True
    with 1 show ?thesis
      by (subst extractPeriod_loop.simps) (simp add: js_nth_Some split: option.splits)
  next
    case False
    then show ?thesis by (subst extractPeriod_loop.simps) simp
  qed
qed

lemma extractPeriod_returns: "\<exists>p. extractPeriod lines = Inr p"
  unfolding extractPeriod_def by (rule extractPeriod_loop_returns) simp

lemma extractPeriod_loop_default:
  "limit \<le> length lines \<Longrightarrow>
   list_all (\<lambda>l. \<not> js_includes l ''Vendas de'') (take limit lines) \<Longrightarrow>
   extractPeriod_loop lines limit i = Inr default_period"
proof (induction lines limit i rule: extractPeriod_loop.induct)
  case (1 lines limit i)
  show ?case
  proof (cases "i < limit")
    case True
    then have "lines ! i \<in> set (take limit lines)"
      using "1.prems"(1) by (metis in_set_conv_nth length_take min.absorb2 nth_take)
    with "1.prems"(2) have no: "\<not> js_includes (lines ! i) ''Vendas de''"
      by (simp add: list_all_iff)
    have nth: "js_nth lines i = Some (lines ! i)"
      using True "1.prems"(1) by (simp add: js_nth_Some)
    have "extractPeriod_loop lines limit (i + 1) = Inr default_period"
      using "1.IH"(3)[OF True nth no] "1.prems" by simp
    then show ?thesis
      using True nth no by (subst extractPeriod_loop.simps) simp
  next
    case False
    then show ?thesis by (subst extractPeriod_loop.simps) simp
  qed
qed

lemma headerIndex_loop_returns:
  "\<exists>h. headerIndex_loop lines i = Inr h \<and> (h = - 1 \<or> (int i \<le> h \<and> h < int (length lines)))"
proof (induction lines i rule: headerIndex_loop.induct)
  case (1 lines i)
  show ?case
  proof (cases "i < length lines")
    case True
    note nth = js_nth_Some[OF True]
    show ?thesis
    proof (cases "js_includes (lines ! i) ''Data'' \<and> js_includes (lines ! i) ''Hora''")
      case hdr: True
      with True nth show ?thesis by (subst headerIndex_loop.simps) simp
    next
      case nohdr: False
      from "1.IH"[OF True nth nohdr] obtain h where
        h: "headerIndex_loop lines (i + 1) = Inr h"
           "h = - 1 \<or> (int (i + 1) \<le> h \<and> h < int (length lines))" by blast
      have "headerIndex_loop lines i = Inr h"
        using True nth nohdr h(1) by (subst headerIndex_loop.simps) auto
      with h(2) show ?thesis by auto
    qed
  next
    case False
    then show ?thesis by (subst headerIndex_loop.simps) simp
  qed
qed


lemma count_dquotes_Cons: "count_dquotes cs \<le> count_dquotes (c # cs)"
  by (simp add: count_dquotes_def)

lemma splitCsvLine_acc_returns:
  "int (count_dquotes s div 2) \<le> cap \<Longrightarrow> \<exists>cols. splitCsvLine_acc cap cur s = Inr cols"
proof (induction s arbitrary: cur)
  case Nil
  show ?case by simp
next
  case (Cons c cs)
  have "count_dquotes cs div 2 \<le> count_dquotes (c # cs) div 2"
    by (rule div_le_mono) (rule count_dquotes_Cons)
  with Cons.prems have le: "int (count_dquotes cs div 2) \<le> cap" by linarith
  from Cons.IH[OF le, of "[]"] obtain cols1 where
    1: "splitCsvLine_acc cap [] cs = Inr cols1" by blast
  from Cons.IH[OF le, of "c # cur"] obtain cols2 where
    2: "splitCsvLine_acc cap (c # cur) cs = Inr cols2" by blast
  from le 1 2 show ?case by auto
qed

lemma count_dquotes_dropWhile: "count_dquotes (dropWhile P s) \<le> count_dquotes s"
  by (induction s) (simp_all add: count_dquotes_def)

lemma count_dquotes_js_trim: "count_dquotes (js_trim s) \<le> count_dquotes s"
proof -
  have r: "count_dquotes (rev xs) = count_dquotes xs" for xs
    by (simp add: count_dquotes_def flip: rev_filter)
  have "count_dquotes (js_trim s) = count_dquotes (dropWhile js_isWhiteSpace (rev (dropWhile js_isWhiteSpace s)))"
    by (simp add: js_trim_def r)
  also have "\<dots> \<le> count_dquotes (rev (dropWhile js_isWhiteSpace s))"
    by (rule count_dquotes_dropWhile)
  also have "\<dots> \<le> count_dquotes s"
    by (simp add: r count_dquotes_dropWhile)
  finally show ?thesis .
qed

text \<open>A line within the capacity of the engine is split, trimmed or not.\<close>

lemma splitCsvLine_returns:
  assumes "line_within cap line"
  shows "\<exists>cols. splitCsvLine cap line = Inr cols"
    and "\<exists>cols. splitCsvLine cap (js_trim line) = Inr cols"
proof -
  show "\<exists>cols. splitCsvLine cap line = Inr cols"
    unfolding splitCsvLine_def
    by (rule splitCsvLine_acc_returns) (use assms in \<open>simp add: line_within_def\<close>)
  have "count_dquotes (js_trim line) div 2 \<le> count_dquotes line div 2"
    by (rule div_le_mono) (rule count_dquotes_js_trim)
  with assms have "int (count_dquotes (js_trim line) div 2) \<le> cap"
    unfolding line_within_def by linarith
  then show "\<exists>cols. splitCsvLine cap (js_trim line) = Inr cols"
    unfolding splitCsvLine_def by (rule splitCsvLine_acc_returns)
qed

lemma operador_loop_returns:
  "limit \<le> length lines \<Longrightarrow> list_all (line_within cap) lines \<Longrightarrow>
   \<exists>v. operador_loop cap lines limit j u = Inr v"
proof (induction cap lines limit j u rule: operador_loop.induct)
  case (1 cap lines limit j u)
  show ?case
  proof (cases "j < limit")
    case True
    with "1.prems" have j: "j < length lines" by simp
    then have "line_within cap (lines ! j)"
      using "1.prems"(2) by (simp add: list_all_length)
    from splitCsvLine_returns(1)[OF this] obtain cols where
      "splitCsvLine cap (lines ! j) = Inr cols" by blast
    with 1 True j show ?thesis
      by (subst operador_loop.simps) (simp add: js_nth_Some split: option.splits)
  next
    case False
    then show ?thesis by (subst operador_loop.simps) simp
  qed
qed

lemma row_step_returns:
  assumes "i < length lines" and "list_all (line_within (regexp_capacity h)) lines"
  shows "\<exists>st'. row_step h format lines i st = Inr st'"
proof -
  obtain v where v: "operador_loop (regexp_capacity h) lines (min (length lines) 50) 0
      default_unitName = Inr v"
    using operador_loop_returns[OF _ assms(2), of "min (length lines) 50" 0 default_unitName]
    by auto
  have "line_within (regexp_capacity h) (lines ! i)"
    using assms by (simp add: list_all_length)
  from splitCsvLine_returns(2)[OF this] obtain cols where
    c: "splitCsvLine (regexp_capacity h) (js_trim (lines ! i)) = Inr cols" by blast
  show ?thesis
    unfolding row_step_def Let_def using assms(1) v c
    by (simp add: js_nth_Some split: option.splits)
qed

lemma rows_loop_returns:
  "list_all (line_within (regexp_capacity h)) lines \<Longrightarrow>
   \<exists>st'. rows_loop h format lines i st = Inr st'"
proof (induction h format lines i st rule: rows_loop.induct)
  case (1 h format lines i st)
  show ?case
  proof (cases "i < length lines")
    case True
    from row_step_returns[OF True "1.prems"] obtain st1 where
      s: "row_step h format lines i st = Inr st1" by blast
    from "1.IH"[OF True s "1.prems"] obtain st2 where
      "rows_loop h format lines (i + 1) st1 = Inr st2" by blast
    with True s show ?thesis by (subst rows_loop.simps) simp
  next
    case False
    then show ?thesis by (subst rows_loop.simps) simp
  qed
qed

text \<open>The steps of a call that returned.\<close>

lemma rows_loop_step:
  assumes "rows_loop h format lines i st = Inr st'" and "i < length lines"
  obtains st1 where "row_step h format lines i st = Inr st1"
    and "rows_loop h format lines (i + 1) st1 = Inr st'"
  using assms by (subst (asm) rows_loop.simps) (auto split: sum.splits)

lemma rows_loop_end:
  assumes "rows_loop h format lines i st = Inr st'" and "\<not> i < length lines"
  shows "st' = st"
  using assms by (subst (asm) rows_loop.simps) simp

lemma parseCSV_Inr:
  assumes "parseCSV h csvText = Inr r"
  obtains format p hd st where
    "detectFormat (lines_of csvText) = Inr format"
    "extractPeriod (lines_of csvText) = Inr p"
    "headerIndex_loop (lines_of csvText) 0 = Inr hd"
    "rows_loop h format (lines_of csvText) (startIndex_of hd)
       \<lparr>cur_unitName = default_unitName, cur_transactions = []\<rparr> = Inr st"
    "r = \<lparr> metadata = \<lparr> unitName = cur_unitName st, period = p,
                           reportType = (if format = ATTENDANT then ''ATTENDANT''
                                         else ''SELF_SERVICE'') \<rparr>,
           transactions = cur_transactions st \<rparr>"
  using assms unfolding parseCSV_def Let_def
  by (auto split: sum.splits)

lemma parseCSV_returns:
  assumes "within_capacity (regexp_capacity h) csvText"
  shows "\<exists>r. parseCSV h csvText = Inr r"
proof -
  have w: "list_all (line_within (regexp_capacity h)) (lines_of csvText)"
    using assms by (simp add: within_capacity_def)
  obtain format where f: "detectFormat (lines_of csvText) = Inr format"
    using detectFormat_returns by blast
  obtain p where p: "extractPeriod (lines_of csvText) = Inr p"
    using extractPeriod_returns by blast
  obtain hd where hd: "headerIndex_loop (lines_of csvText) 0 = Inr hd"
    using headerIndex_loop_returns by blast
  obtain st where "rows_loop h format (lines_of csvText) (startIndex_of hd)
       \<lparr>cur_unitName = default_unitName, cur_transactions = []\<rparr> = Inr st"
    using rows_loop_returns[OF w] by blast
  then show ?thesis by (simp add: parseCSV_def Let_def f p hd)
qed

subsection \<open>A line that passes the capacity of the engine\<close>

lemma split_lines_acc_one_line:
  "CHR 0x0A \<notin> set s \<Longrightarrow> split_lines_acc cur s = [rev cur @ s]"
proof (induction s arbitrary: cur)
  case Nil
  show ?case by simp
next
  case (Cons c cs)
  then have "cs \<noteq> [] \<Longrightarrow> hd cs \<noteq> CHR 0x0A" by (cases cs) auto
  with Cons show ?case by auto
qed

lemma js_trim_no_space:
  assumes "list_all (\<lambda>c. \<not> js_isWhiteSpace c) s"
  shows "js_trim s = s"
proof -
  have d: "dropWhile js_isWhiteSpace xs = xs" if "list_all (\<lambda>c. \<not> js_isWhiteSpace c) xs" for xs
    using that by (cases xs) simp_all
  have "list_all (\<lambda>c. \<not> js_isWhiteSpace c) (rev s)" using assms by (simp add: list_all_iff)
  then show ?thesis by (simp add: js_trim_def d[OF assms] d)
qed

lemma js_includes_chars: "js_includes s p \<Longrightarrow> set p \<subseteq> set s"
proof (induction s)
  case Nil
  then show ?case by simp
next
  case (Cons c cs)
  show ?case
  proof (cases "js_startsWith (c # cs) p")
    case True
    then have "set p = set (take (length p) (c # cs))" by (simp add: js_startsWith_def)
    then show ?thesis using set_take_subset[of "length p" "c # cs"] by simp
  next
    case False
    with Cons show ?thesis by auto
  qed
qed

lemma quote_pairs_line_chars: "set (quote_pairs_line n) \<subseteq> {CHR '','', CHR 0x22}"
  by (auto simp: quote_pairs_line_def)

lemma quote_pairs_line_no_Data: "\<not> js_includes (quote_pairs_line n) ''Data''"
proof
  assume "js_includes (quote_pairs_line n) ''Data''"
  from js_includes_chars[OF this] quote_pairs_line_chars[of n] show False by auto
qed

lemma quote_pairs_line_trim: "js_trim (quote_pairs_line n) = quote_pairs_line n"
  by (rule js_trim_no_space)
    (auto simp: quote_pairs_line_def list_all_iff js_isWhiteSpace_def)

lemma quote_pairs_line_kept:
  assumes "0 < n"
  shows "lines_of (quote_pairs_line n) = [quote_pairs_line n]"
proof -
  have "CHR 0x0A \<notin> set (quote_pairs_line n)"
    using quote_pairs_line_chars[of n] by auto
  then have s: "split_lines (quote_pairs_line n) = [quote_pairs_line n]"
    by (simp add: split_lines_def split_lines_acc_one_line)
  have r: "remove_char CHR '','' (quote_pairs_line n) = replicate (2 * n) (CHR 0x22)"
    by (simp add: remove_char_def quote_pairs_line_def)
  have "js_trim (replicate (2 * n) (CHR 0x22)) = replicate (2 * n) (CHR 0x22)"
    by (rule js_trim_no_space) (simp add: list_all_iff js_isWhiteSpace_def)
  with assms have "\<not> isLineEmpty (quote_pairs_line n)"
    by (simp add: isLineEmpty_def Let_def r quote_pairs_line_trim)
      (simp add: quote_pairs_line_def)
  with s show ?thesis by (simp add: lines_of_def)
qed

lemma quote_pairs_line_split:
  assumes "cap < int n"
  shows "splitCsvLine cap (quote_pairs_line n) = Inl RangeError"
proof -
  have "count_dquotes (replicate (2 * n) (CHR 0x22)) = 2 * n"
    by (simp add: count_dquotes_def)
  with assms show ?thesis
    by (simp add: splitCsvLine_def quote_pairs_line_def)
qed

lemma quote_pairs_line_unknown:
  assumes "0 < n"
  shows "detectFormat (lines_of (quote_pairs_line n)) = Inr UNKNOWN_FORMAT"
  unfolding quote_pairs_line_kept[OF assms] detectFormat_def
  by (subst detectFormat_loop.simps, simp add: js_nth_def quote_pairs_line_no_Data,
      subst detectFormat_loop.simps, simp)

lemma quote_pairs_line_throws:
  assumes "regexp_capacity h < int n" and n: "0 < n"
  shows "parseCSV h (quote_pairs_line n) = Inl RangeError"
proof -
  let ?l = "quote_pairs_line n"
  obtain p where p: "extractPeriod [?l] = Inr p"
    using extractPeriod_returns by blast
  have hd: "headerIndex_loop [?l] 0 = Inr (- 1)"
    by (subst headerIndex_loop.simps, simp add: js_nth_def quote_pairs_line_no_Data,
        subst headerIndex_loop.simps, simp)
  have nt: "\<not> js_startsWith ?l ''Total''"
    by (simp add: js_startsWith_def quote_pairs_line_def)
  have step: "row_step h format [?l] 0 st = Inl RangeError" for format st
    by (simp add: row_step_def Let_def js_nth_def quote_pairs_line_trim nt
        quote_pairs_line_split[OF assms(1)])
  have loop: "rows_loop h format [?l] 0 st = Inl RangeError" for format st
    by (subst rows_loop.simps) (simp add: step)
  show ?thesis
    by (simp add: parseCSV_def Let_def quote_pairs_line_kept[OF n] quote_pairs_line_unknown[OF n, unfolded quote_pairs_line_kept[OF n]]
        p hd startIndex_of_def loop)
qed

subsection \<open>\<^verbatim>\<open>parseCSV\<close> can throw\<close>

text \<open>
  Claim C9 fails on the code. On every host, the text of one line that holds a
  comma followed by more pairs of double quotes than the regular expression
  engine holds repetitions makes the split of line 44, called at line 119,
  throw \<open>RangeError\<close>: \<^verbatim>\<open>parseCSV\<close> throws where the claim says it returns.
\<close>

theorem parseCSV_throws_RangeError:
  "parseCSV h (quote_pairs_line (nat (regexp_capacity h) + 1)) = Inl RangeError"
  by (rule quote_pairs_line_throws) simp_all

subsection \<open>The report type\<close>

text \<open>
  Claim C4. The report type of the result is \<^verbatim>\<open>ATTENDANT\<close> exactly when the detected
  layout is ATTENDANT, and \<^verbatim>\<open>SELF_SERVICE\<close> in every other case, the layout UNKNOWN
  included. (There is a result for every text whose lines are within the
  capacity of the engine.)
\<close>

theorem parseCSV_reportType:
  "(within_capacity (regexp_capacity h) csvText \<longrightarrow> (\<exists>r. parseCSV h csvText = Inr r))
   \<and> (\<forall>r. parseCSV h csvText = Inr r \<longrightarrow>
         reportType (metadata r) =
           (if detectFormat (lines_of csvText) = Inr ATTENDANT then ''ATTENDANT''
            else ''SELF_SERVICE''))"
proof (intro conjI allI impI)
  assume "within_capacity (regexp_capacity h) csvText"
  then show "\<exists>r. parseCSV h csvText = Inr r" by (rule parseCSV_returns)
next
  fix r assume "parseCSV h csvText = Inr r"
  then show "reportType (metadata r) =
           (if detectFormat (lines_of csvText) = Inr ATTENDANT then ''ATTENDANT''
            else ''SELF_SERVICE'')"
    by (rule parseCSV_Inr) auto
qed

text \<open>The theorem at the example report, of layout ATTENDANT, and at the text
  \<^verbatim>\<open>abc\<close>, of layout UNKNOWN.\<close>

theorem parseCSV_reportType_witness:
  "within_capacity (regexp_capacity utc_host) attendant_example
   \<and> detectFormat (lines_of attendant_example) = Inr ATTENDANT
   \<and> (\<exists>r. parseCSV utc_host attendant_example = Inr r \<and> reportType (metadata r) = ''ATTENDANT'')
   \<and> within_capacity (regexp_capacity utc_host) ''abc''
   \<and> detectFormat (lines_of ''abc'') = Inr UNKNOWN_FORMAT
   \<and> (\<exists>r. parseCSV utc_host ''abc'' = Inr r \<and> reportType (metadata r) = ''SELF_SERVICE'')"
proof -
  have w1: "within_capacity (regexp_capacity utc_host) attendant_example" by code_simp
  have d1: "detectFormat (lines_of attendant_example) = Inr ATTENDANT" by code_simp
  have w2: "within_capacity (regexp_capacity utc_host) ''abc''" by code_simp
  have d2: "detectFormat (lines_of ''abc'') = Inr UNKNOWN_FORMAT" by code_simp
  show ?thesis
    using parseCSV_reportType[of utc_host attendant_example]
      parseCSV_reportType[of utc_host "''abc''"] w1 d1 w2 d2
    by auto
qed

subsection \<open>An unrecognised layout\<close>

text \<open>
  Claim C3 fails on the code. The text of one line that holds a comma followed
  by more pairs of double quotes than the engine holds repetitions has the
  layout UNKNOWN, and \<^verbatim>\<open>parseCSV\<close> throws \<open>RangeError\<close> on it: line 119 splits every
  line before the layout is looked at, although an UNKNOWN layout never uses the
  columns.
\<close>

theorem unknown_format_throws:
  "detectFormat (lines_of (quote_pairs_line (nat (regexp_capacity h) + 1))) = Inr UNKNOWN_FORMAT
   \<and> parseCSV h (quote_pairs_line (nat (regexp_capacity h) + 1)) = Inl RangeError"
proof
  show "detectFormat (lines_of (quote_pairs_line (nat (regexp_capacity h) + 1)))
        = Inr UNKNOWN_FORMAT"
    by (rule quote_pairs_line_unknown) simp
  show "parseCSV h (quote_pairs_line (nat (regexp_capacity h) + 1)) = Inl RangeError"
    by (rule quote_pairs_line_throws) simp_all
qed

text \<open>Where the call returns on a text of layout UNKNOWN, the result has no
  transaction and the placeholder unit name; the period is what
  \<^verbatim>\<open>extractPeriod\<close> finds, the placeholder where none of the first 5000 lines
  holds \<^verbatim>\<open>Vendas de\<close>.\<close>

lemma rows_loop_unknown:
  "rows_loop h UNKNOWN_FORMAT lines i st = Inr st' \<Longrightarrow> st' = st"
proof (induction h UNKNOWN_FORMAT lines i st rule: rows_loop.induct)
  case (1 h lines i st)
  show ?case
  proof (cases "i < length lines")
    case True
    from rows_loop_step[OF "1.prems" True] obtain st1 where
      s: "row_step h UNKNOWN_FORMAT lines i st = Inr st1"
      and l: "rows_loop h UNKNOWN_FORMAT lines (i + 1) st1 = Inr st'" by blast
    from s True have "st1 = st"
      by (auto simp: row_step_def Let_def js_nth_Some split: sum.splits if_splits)
    with "1.hyps"[OF True s l] show ?thesis by simp
  next
    case False
    with "1.prems" show ?thesis by (rule rows_loop_end)
  qed
qed

lemma parseCSV_unknown_format:
  assumes "detectFormat (lines_of csvText) = Inr UNKNOWN_FORMAT"
    and "parseCSV h csvText = Inr r"
  shows "transactions r = []"
    and "unitName (metadata r) = default_unitName"
    and "extractPeriod (lines_of csvText) = Inr (period (metadata r))"
    and "list_all (\<lambda>l. \<not> js_includes l ''Vendas de'') (take 5000 (lines_of csvText))
          \<Longrightarrow> period (metadata r) = default_period"
proof -
  from assms(2) obtain format p hd st where
    f: "detectFormat (lines_of csvText) = Inr format"
    and p: "extractPeriod (lines_of csvText) = Inr p"
    and st: "rows_loop h format (lines_of csvText) (startIndex_of hd)
       \<lparr>cur_unitName = default_unitName, cur_transactions = []\<rparr> = Inr st"
    and r: "r = \<lparr> metadata = \<lparr> unitName = cur_unitName st, period = p,
                           reportType = (if format = ATTENDANT then ''ATTENDANT''
                                         else ''SELF_SERVICE'') \<rparr>,
           transactions = cur_transactions st \<rparr>"
    by (rule parseCSV_Inr)
  from f assms(1) have "format = UNKNOWN_FORMAT" by simp
  with st have st': "st = \<lparr>cur_unitName = default_unitName, cur_transactions = []\<rparr>"
    by (auto dest: rows_loop_unknown)
  show "transactions r = []" "unitName (metadata r) = default_unitName"
    "extractPeriod (lines_of csvText) = Inr (period (metadata r))"
    using r p st' by simp_all
  assume n: "list_all (\<lambda>l. \<not> js_includes l ''Vendas de'') (take 5000 (lines_of csvText))"
  have "take (min (length (lines_of csvText)) 5000) (lines_of csvText)
        = take 5000 (lines_of csvText)"
    by (simp add: min_def)
  with n have "extractPeriod (lines_of csvText) = Inr default_period"
    unfolding extractPeriod_def by (intro extractPeriod_loop_default) simp_all
  with p r show "period (metadata r) = default_period" by simp
qed

subsection \<open>The transactions of the result\<close>

text \<open>Every transaction of the result was built by the common processing of
  some row.\<close>

lemma row_step_transactions:
  assumes "row_step h format lines i st = Inr st'"
    and "t \<in> set (cur_transactions st')"
  shows "t \<in> set (cur_transactions st)
         \<or> (\<exists>m a d tm p. common_processing h i m a d tm p = Some t)"
  using assms unfolding row_step_def Let_def push_row_def
  by (auto split: option.splits if_splits sum.splits)

lemma rows_loop_transactions:
  "rows_loop h format lines i st = Inr st' \<Longrightarrow> t \<in> set (cur_transactions st') \<Longrightarrow>
   t \<in> set (cur_transactions st)
   \<or> (\<exists>k m a d tm p. common_processing h k m a d tm p = Some t)"
proof (induction h format lines i st rule: rows_loop.induct)
  case (1 h format lines i st)
  show ?case
  proof (cases "i < length lines")
    case True
    from rows_loop_step[OF "1.prems"(1) True] obtain st1 where
      s: "row_step h format lines i st = Inr st1"
      and l: "rows_loop h format lines (i + 1) st1 = Inr st'" by blast
    from "1.IH"[OF True s l "1.prems"(2)]
    show ?thesis using row_step_transactions[OF s] by blast
  next
    case False
    with "1.prems" show ?thesis by (auto dest: rows_loop_end)
  qed
qed

lemma parseCSV_transactions:
  assumes "parseCSV h csvText = Inr r" and "t \<in> set (transactions r)"
  shows "\<exists>k m a d tm p. common_processing h k m a d tm p = Some t"
proof -
  from assms(1) obtain format p hd st where
    st: "rows_loop h format (lines_of csvText) (startIndex_of hd)
       \<lparr>cur_unitName = default_unitName, cur_transactions = []\<rparr> = Inr st"
    and r: "r = \<lparr> metadata = \<lparr> unitName = cur_unitName st, period = p,
                           reportType = (if format = ATTENDANT then ''ATTENDANT''
                                         else ''SELF_SERVICE'') \<rparr>,
           transactions = cur_transactions st \<rparr>"
    by (rule parseCSV_Inr)
  from r assms(2) have "t \<in> set (cur_transactions st)" by simp
  from rows_loop_transactions[OF st this] show ?thesis by simp
qed

text \<open>
  Claim C10. In every transaction of the result the fields \<open>productName\<close> and
  \<open>machine\<close> are equal: both are the machine column of the row.
\<close>

theorem productName_is_machine:
  assumes "parseCSV h csvText = Inr r"
  shows "\<forall>t \<in> set (transactions r). productName t = machine t"
proof
  fix t assume "t \<in> set (transactions r)"
  from parseCSV_transactions[OF assms this] obtain k m a d tm p where
    "common_processing h k m a d tm p = Some t" by blast
  then show "productName t = machine t"
    by (auto simp: common_processing_def Let_def split: if_splits)
qed

lemma attendant_example_result:
  "parseCSV utc_host attendant_example = Inr
     \<lparr>metadata = \<lparr>unitName = ''Cliente X'', period = default_period,
                  reportType = ''ATTENDANT''\<rparr>,
      transactions =
        [\<lparr>id_tx = ''1-05/03/2024-09:15:00-Secadora 1'',
          date = Some 1709630100000, rawDate = ''05/03/2024'',
          rawTime = ''09:15:00'', productName = ''Secadora 1'',
          type_tx = DRY, amount = Num 12, paymentMethod = ''Cartao'',
          machine = ''Secadora 1'', dayOfWeek = Some 2\<rparr>]\<rparr>"
  by code_simp

text \<open>The theorem at the example report: its one transaction has both fields
  \<^verbatim>\<open>Secadora 1\<close>.\<close>

theorem productName_is_machine_witness:
  "\<exists>r. parseCSV utc_host attendant_example = Inr r
     \<and> map productName (transactions r) = [''Secadora 1'']
     \<and> list_all (\<lambda>t. productName t = machine t) (transactions r)"
  using productName_is_machine[OF attendant_example_result] attendant_example_result
  by (simp add: list_all_iff)

subsection \<open>The day of the week\<close>

text \<open>
  Claim C6 fails on the code. The row of this report passes every check of the
  row mapper, its time \<^verbatim>\<open>ab:cd:ef\<close> gives \<open>NaN\<close> for the hours, the timestamp is an
  invalid date and \<open>dayOfWeek\<close> is \<open>NaN\<close>, not a number from 0 to 6.
\<close>

theorem dayOfWeek_NaN:
  "parseCSV utc_host attendant_bad_time = Inr
     \<lparr>metadata = \<lparr>unitName = ''Cliente X'', period = default_period,
                  reportType = ''ATTENDANT''\<rparr>,
      transactions =
        [\<lparr>id_tx = ''1-05/03/2024-ab:cd:ef-Secadora 1'',
          date = None, rawDate = ''05/03/2024'',
          rawTime = ''ab:cd:ef'', productName = ''Secadora 1'',
          type_tx = DRY, amount = Num 12, paymentMethod = ''Cartao'',
          machine = ''Secadora 1'', dayOfWeek = None\<rparr>]\<rparr>"
  by code_simp

subsection \<open>The unit name of an attendant report\<close>

text \<open>
  Claim C7 fails on the code. The first valid row of this attendant report
  supplies the acceptable name \<^verbatim>\<open>Unidade Desconhecida\<close>; the code knows an unset
  name by that very text, so the guard of line 163 still holds at the second
  row and \<^verbatim>\<open>Loja B\<close> overwrites the name of the first valid row.
\<close>

theorem unitName_overwritten:
  "parseCSV utc_host placeholder_example = Inr
     \<lparr>metadata = \<lparr>unitName = ''Loja B'', period = default_period,
                  reportType = ''ATTENDANT''\<rparr>,
      transactions =
        [\<lparr>id_tx = ''1-05/03/2024-09:15:00-Secadora 1'',
          date = Some 1709630100000, rawDate = ''05/03/2024'',
          rawTime = ''09:15:00'', productName = ''Secadora 1'',
          type_tx = DRY, amount = Num 12, paymentMethod = ''Cartao'',
          machine = ''Secadora 1'', dayOfWeek = Some 2\<rparr>,
         \<lparr>id_tx = ''2-06/03/2024-10:00:00-Lavadora 2'',
          date = Some 1709719200000, rawDate = ''06/03/2024'',
          rawTime = ''10:00:00'', productName = ''Lavadora 2'',
          type_tx = WASH, amount = Num 10, paymentMethod = ''Pix'',
          machine = ''Lavadora 2'', dayOfWeek = Some 3\<rparr>]\<rparr>"
  by code_simp

subsection \<open>Junk lines\<close>

lemma split_lines_acc_nonempty: "split_lines_acc cur s \<noteq> []"
  by (induction cur s rule: split_lines_acc.induct) auto

lemma split_lines_acc_boundary:
  "split_lines_acc cur (a @ CHR 0x0A # b)
   = butlast (split_lines_acc cur (a @ [CHR 0x0A])) @ split_lines_acc [] b"
proof (induction cur a rule: split_lines_acc.induct)
  case (1 cur)
  show ?case by simp
next
  case (2 cur c cs)
  note ne = split_lines_acc_nonempty
  show ?case
  proof (cases "cs = []")
    case True
    then show ?thesis by (simp add: ne)
  next
    case False
    then have hd: "hd (cs @ x) = hd cs" and tl: "tl (cs @ x) = tl cs @ x" for x
      by simp_all
    show ?thesis
    proof (cases "c = CHR 0x0D \<and> hd cs = CHR 0x0A")
      case True
      with False 2(1) show ?thesis by (simp add: hd tl ne)
    next
      case nocr: False
      show ?thesis
      proof (cases "c = CHR 0x0A")
        case True
        with False nocr 2(2) show ?thesis by (simp add: hd tl ne)
      next
        case nolf: False
        with False nocr 2(3) show ?thesis by (auto simp add: hd tl ne)
      qed
    qed
  qed
qed

lemma split_lines_acc_chars:
  "l \<in> set (split_lines_acc cur s) \<Longrightarrow> set l \<subseteq> set cur \<union> set s"
proof (induction cur s rule: split_lines_acc.induct)
  case (1 cur)
  then show ?case by auto
next
  case (2 cur c cs)
  show ?case
  proof (cases "c = CHR 0x0D \<and> cs \<noteq> [] \<and> hd cs = CHR 0x0A")
    case True
    then have "set (tl cs) \<subseteq> set cs" by (cases cs) auto
    with True 2(1) 2(4) show ?thesis by auto
  next
    case nocr: False
    show ?thesis
    proof (cases "c = CHR 0x0A")
      case True
      with nocr 2(2) 2(4) show ?thesis by auto
    next
      case False
      with nocr 2(3) 2(4) show ?thesis by auto
    qed
  qed
qed

lemma dropWhile_all: "list_all P xs \<Longrightarrow> dropWhile P xs = []"
  by (induction xs) simp_all

lemma junk_isLineEmpty:
  assumes "junk_text l"
  shows "isLineEmpty l"
proof -
  have "list_all js_isWhiteSpace (remove_char CHR '','' l)"
    using assms by (induction l) (auto simp: junk_text_def remove_char_def)
  then have "js_trim (remove_char CHR '','' l) = []"
    by (simp add: js_trim_def dropWhile_all)
  then show ?thesis by (simp add: isLineEmpty_def)
qed

lemma junk_lines_dropped:
  assumes "junk_text j"
  shows "filter (\<lambda>line. \<not> isLineEmpty line) (split_lines_acc [] j) = []"
proof -
  have "isLineEmpty l" if "l \<in> set (split_lines_acc [] j)" for l
  proof -
    from split_lines_acc_chars[OF that] have "set l \<subseteq> set j" by simp
    with assms have "junk_text l" by (auto simp: junk_text_def list_all_iff)
    then show ?thesis by (rule junk_isLineEmpty)
  qed
  then show ?thesis by (simp add: filter_empty_conv)
qed

lemma junk_text_snoc: "junk_text j \<Longrightarrow> junk_text (j @ [CHR 0x0A])"
  by (simp add: junk_text_def js_isWhiteSpace_def)

lemma junk_front_dropped:
  assumes "junk_text j"
  shows "filter (\<lambda>line. \<not> isLineEmpty line) (butlast (split_lines_acc [] (j @ [CHR 0x0A]))) = []"
proof -
  have "filter (\<lambda>line. \<not> isLineEmpty line) (split_lines_acc [] (j @ [CHR 0x0A])) = []"
    using assms by (intro junk_lines_dropped junk_text_snoc)
  then show ?thesis
    by (metis (no_types, lifting) filter_empty_conv in_set_butlastD)
qed

lemma lines_of_junk_inserted:
  assumes "junk_text j" and "a = [] \<or> last a = CHR 0x0A"
  shows "lines_of (a @ j @ [CHR 0x0A] @ b) = lines_of (a @ b)"
proof (cases "a = []")
  case True
  have "split_lines_acc [] (j @ [CHR 0x0A] @ b)
        = butlast (split_lines_acc [] (j @ [CHR 0x0A])) @ split_lines_acc [] b"
    using split_lines_acc_boundary[of "[]" j b] by simp
  then show ?thesis
    using junk_front_dropped[OF assms(1)] True
    by (simp add: lines_of_def split_lines_def)
next
  case False
  with assms(2) obtain a0 where a: "a = a0 @ [CHR 0x0A]"
    by (metis append_butlast_last_id)
  have 1: "split_lines_acc [] (a @ j @ [CHR 0x0A] @ b)
        = butlast (split_lines_acc [] (a0 @ [CHR 0x0A]))
          @ butlast (split_lines_acc [] (j @ [CHR 0x0A])) @ split_lines_acc [] b"
    using split_lines_acc_boundary[of "[]" a0 "j @ CHR 0x0A # b"]
      split_lines_acc_boundary[of "[]" j b]
    by (simp add: a)
  have 2: "split_lines_acc [] (a @ b)
        = butlast (split_lines_acc [] (a0 @ [CHR 0x0A])) @ split_lines_acc [] b"
    using split_lines_acc_boundary[of "[]" a0 b] by (simp add: a)
  show ?thesis
    unfolding lines_of_def split_lines_def 1 2
    using junk_front_dropped[OF assms(1)] by simp
qed

text \<open>
  Claim C8. Junk lines (blank, white space only, or commas and white space
  only) inserted at the start of the text or after any line end change neither
  the detected layout nor the number of transactions: the kept lines, and with
  them the whole outcome of the call, are the same.
\<close>

theorem junk_lines_ignored:
  assumes "junk_text j" and "a = [] \<or> last a = CHR 0x0A"
  shows "detectFormat (lines_of (a @ j @ [CHR 0x0A] @ b)) = detectFormat (lines_of (a @ b))
     \<and> parseCSV h (a @ j @ [CHR 0x0A] @ b) = parseCSV h (a @ b)
     \<and> (within_capacity (regexp_capacity h) (a @ b) \<longrightarrow>
          (\<exists>r r'. parseCSV h (a @ j @ [CHR 0x0A] @ b) = Inr r
             \<and> parseCSV h (a @ b) = Inr r'
             \<and> length (transactions r) = length (transactions r')))"
proof -
  note eq = lines_of_junk_inserted[OF assms, of b]
  have p: "parseCSV h (a @ j @ [CHR 0x0A] @ b) = parseCSV h (a @ b)"
    by (simp only: parseCSV_def eq)
  have "\<exists>r'. parseCSV h (a @ b) = Inr r'" if "within_capacity (regexp_capacity h) (a @ b)"
    using that by (rule parseCSV_returns)
  with p show ?thesis using eq by auto
qed

text \<open>The theorem at the example report, with the junk \<^verbatim>\<open>,, ,\<close> and an empty line
  put between the header row and the data row.\<close>

theorem junk_lines_ignored_witness:
  "junk_text ('',, ,'' @ [CHR 0x0A])
   \<and> last attendant_header = CHR 0x0A
   \<and> within_capacity (regexp_capacity utc_host) (attendant_header @ attendant_row)
   \<and> detectFormat (lines_of (attendant_header @ ('',, ,'' @ [CHR 0x0A]) @ [CHR 0x0A] @ attendant_row))
       = Inr ATTENDANT
   \<and> detectFormat (lines_of (attendant_header @ attendant_row)) = Inr ATTENDANT
   \<and> (\<exists>r r'. parseCSV utc_host (attendant_header @ ('',, ,'' @ [CHR 0x0A]) @ [CHR 0x0A] @ attendant_row) = Inr r
         \<and> parseCSV utc_host (attendant_header @ attendant_row) = Inr r'
         \<and> length (transactions r) = length (transactions r'))"
proof -
  have j: "junk_text ('',, ,'' @ [CHR 0x0A])" by code_simp
  have a: "last attendant_header = CHR 0x0A" by code_simp
  have w: "within_capacity (regexp_capacity utc_host) (attendant_header @ attendant_row)"
    by code_simp
  have d: "detectFormat (lines_of (attendant_header @ attendant_row)) = Inr ATTENDANT"
    by code_simp
  from a have a': "attendant_header = [] \<or> last attendant_header = CHR 0x0A" by simp
  note c = junk_lines_ignored[OF j a', where h = utc_host and b = attendant_row]
  from c d have c': "detectFormat (lines_of (attendant_header @ ('',, ,'' @ [CHR 0x0A]) @ [CHR 0x0A] @ attendant_row))
       = Inr ATTENDANT" by (simp only:)
  from c w have e: "\<exists>r r'. parseCSV utc_host (attendant_header @ ('',, ,'' @ [CHR 0x0A]) @ [CHR 0x0A] @ attendant_row) = Inr r
         \<and> parseCSV utc_host (attendant_header @ attendant_row) = Inr r'
         \<and> length (transactions r) = length (transactions r')" by blast
  show ?thesis by (intro conjI j a w d c' e)
qed

subsection \<open>The calendar\<close>

lemma div_bounds:
  fixes x n :: int
  assumes "0 < n"
  shows "n * (x div n) \<le> x" and "x < n * (x div n) + n"
proof -
  have "x = n * (x div n) + x mod n" by simp
  moreover have "0 \<le> x mod n" "x mod n < n" using assms by simp_all
  ultimately show "n * (x div n) \<le> x" and "x < n * (x div n) + n" by linarith+
qed

lemma div_succ:
  fixes a n :: int
  assumes "0 < n"
  shows "(a + 1) div n = a div n + (if (a + 1) mod n = 0 then 1 else 0)"
proof -
  define q r where "q = a div n" and "r = a mod n"
  have a: "a = n * q + r" by (simp add: q_def r_def)
  have r: "0 \<le> r" "r < n" using assms by (simp_all add: r_def)
  show ?thesis
  proof (cases "r + 1 < n")
    case True
    have 1: "a + 1 = n * q + (r + 1)" using a by simp
    have "(a + 1) div n = q"
      by (rule int_div_pos_eq[OF 1]) (use r True in simp_all)
    moreover have "(a + 1) mod n = r + 1"
      by (rule int_mod_pos_eq[OF 1]) (use r True in simp_all)
    ultimately show ?thesis using r by (simp add: q_def)
  next
    case False
    with r have "r + 1 = n" by simp
    with a have "a + 1 = n * (q + 1)" by (simp add: algebra_simps)
    then have "(a + 1) div n = q + 1" "(a + 1) mod n = 0" using assms by simp_all
    then show ?thesis by (simp add: q_def)
  qed
qed

lemma mod_shift: "(y - k * n) mod n = y mod n" for y k n :: int
proof -
  have "y - k * n = y + (- k) * n" by simp
  then show ?thesis by (simp only: mod_mult_self1)
qed

lemma mod_100_4: "y mod 100 = 0 \<Longrightarrow> y mod 4 = 0" for y :: int
proof -
  assume "y mod 100 = 0"
  then have "100 dvd y" by (simp add: mod_eq_0_iff_dvd)
  moreover have "(4::int) dvd 100" by simp
  ultimately have "4 dvd y" by (rule dvd_trans[rotated])
  then show ?thesis by (simp add: mod_eq_0_iff_dvd)
qed

lemma mod_400_100: "y mod 400 = 0 \<Longrightarrow> y mod 100 = 0" for y :: int
proof -
  assume "y mod 400 = 0"
  then have "400 dvd y" by (simp add: mod_eq_0_iff_dvd)
  moreover have "(100::int) dvd 400" by simp
  ultimately have "100 dvd y" by (rule dvd_trans[rotated])
  then show ?thesis by (simp add: mod_eq_0_iff_dvd)
qed

lemma DayFromYear_Suc: "DayFromYear (y + 1) = DayFromYear y + DaysInYear y"
proof -
  have 4: "(y + 1 - 1969) div 4 = (y - 1969) div 4 + (if y mod 4 = 0 then 1 else 0)"
    using div_succ[of 4 "y - 1969"] mod_shift[of y 492 4] by simp
  have 100: "(y + 1 - 1901) div 100 = (y - 1901) div 100 + (if y mod 100 = 0 then 1 else 0)"
    using div_succ[of 100 "y - 1901"] mod_shift[of y 19 100] by simp
  have 400: "(y + 1 - 1601) div 400 = (y - 1601) div 400 + (if y mod 400 = 0 then 1 else 0)"
    using div_succ[of 400 "y - 1601"] mod_shift[of y 4 400] by simp
  have "DayFromYear (y + 1) = DayFromYear y + 365 + (if y mod 4 = 0 then 1 else 0)
          - (if y mod 100 = 0 then 1 else 0) + (if y mod 400 = 0 then 1 else 0)"
    unfolding DayFromYear_def 4 100 400 by simp
  also have "\<dots> = DayFromYear y + DaysInYear y"
    using mod_100_4[of y] mod_400_100[of y] by (auto simp: DaysInYear_def)
  finally show ?thesis .
qed

lemma DaysInYear_cases: "DaysInYear y = 365 \<or> DaysInYear y = 366"
  by (simp add: DaysInYear_def)

lemma DayFromYear_less_Suc: "DayFromYear y < DayFromYear (y + 1)"
  using DaysInYear_cases[of y] by (auto simp: DayFromYear_Suc)


lemma DayFromYear_strict_mono:
  assumes "a < b"
  shows "DayFromYear a < DayFromYear b"
proof -
  have "DayFromYear a < DayFromYear (a + 1 + int n)" for n
  proof (induction n)
    case 0
    show ?case using DayFromYear_less_Suc[of a] by simp
  next
    case (Suc n)
    have "DayFromYear (a + 1 + int n) < DayFromYear (a + 1 + int n + 1)"
      by (rule DayFromYear_less_Suc)
    with Suc show ?case by (simp add: add.assoc)
  qed
  from this[of "nat (b - a - 1)"] assms show ?thesis by simp
qed

lemma DayFromYear_le_imp: "DayFromYear a < DayFromYear b \<Longrightarrow> a < b"
  using DayFromYear_strict_mono[of b a] by (cases "a < b") (auto simp: not_less le_less)

lemma year_search_correct:
  "DayFromYear y0 \<le> D \<Longrightarrow> DayFromYear y \<le> D \<Longrightarrow> D < DayFromYear (y + 1) \<Longrightarrow>
   year_search D y0 = y"
proof (induction D y0 rule: year_search.induct)
  case (1 d y0)
  show ?case
  proof (cases "DayFromYear (y0 + 1) \<le> d")
    case True
    with 1 have "year_search d (y0 + 1) = y" by simp
    with True show ?thesis by (subst year_search.simps) simp
  next
    case False
    have "y0 < y + 1"
      by (rule DayFromYear_le_imp) (use 1 in linarith)
    moreover have "y < y0 + 1"
      by (rule DayFromYear_le_imp) (use 1 False in linarith)
    ultimately have "y0 = y" by simp
    with False show ?thesis by (subst year_search.simps) simp
  qed
qed

lemma leap_count_nonneg:
  fixes k :: int
  assumes "0 \<le> k"
  shows "(k + 1) div 4 - (k + 69) div 100 + (k + 369) div 400 \<le> k"
proof -
  define a b c where "a = (k + 1) div 4" and "b = (k + 69) div 100" and "c = (k + 369) div 400"
  have a: "4 * a \<le> k + 1" unfolding a_def by (rule div_bounds) simp
  have c: "400 * c \<le> k + 369" unfolding c_def by (rule div_bounds) simp
  have b: "0 \<le> b" unfolding b_def using assms by simp
  show ?thesis
  proof (cases "2 \<le> k")
    case True
    with a b c have "a - b + c \<le> k" by linarith
    then show ?thesis by (simp add: a_def b_def c_def)
  next
    case False
    with assms have "k = 0 \<or> k = 1" by linarith
    then show ?thesis by auto
  qed
qed

lemma leap_count_neg:
  fixes k :: int
  assumes "k < 0"
  shows "(k + 1) div 4 - (k + 69) div 100 + (k + 369) div 400 \<le> 0"
proof -
  define a b c where "a = (k + 1) div 4" and "b = (k + 69) div 100" and "c = (k + 369) div 400"
  have a: "4 * a \<le> k + 1" unfolding a_def by (rule div_bounds) simp
  have c: "400 * c \<le> k + 369" unfolding c_def by (rule div_bounds) simp
  have b: "k + 69 < 100 * b + 100" unfolding b_def by (rule div_bounds) simp
  show ?thesis
  proof (cases "k \<le> - 7")
    case True
    with a b c have "a - b + c \<le> 0" by linarith
    then show ?thesis by (simp add: a_def b_def c_def)
  next
    case False
    with assms have "k = - 1 \<or> k = - 2 \<or> k = - 3 \<or> k = - 4 \<or> k = - 5 \<or> k = - 6"
      by linarith
    then show ?thesis by auto
  qed
qed

lemma search_start_below:
  "DayFromYear (1970 + (if 0 \<le> D then D div 366 else D div 365)) \<le> D"
proof (cases "0 \<le> D")
  case True
  define k where "k = D div 366"
  have k: "0 \<le> k" "366 * k \<le> D"
    using True div_bounds(1)[of 366 D] by (simp_all add: k_def)
  have "DayFromYear (1970 + k) = 365 * k + ((k + 1) div 4 - (k + 69) div 100 + (k + 369) div 400)"
    by (simp add: DayFromYear_def add.commute)
  with leap_count_nonneg[OF k(1)] k(2) have "DayFromYear (1970 + k) \<le> D" by linarith
  with True show ?thesis by (simp add: k_def)
next
  case False
  define k where "k = D div 365"
  have k: "k < 0" "365 * k \<le> D"
    using False div_bounds(1)[of 365 D] by (simp_all add: k_def neg_imp_zdiv_neg_iff)
  have "DayFromYear (1970 + k) = 365 * k + ((k + 1) div 4 - (k + 69) div 100 + (k + 369) div 400)"
    by (simp add: DayFromYear_def add.commute)
  with leap_count_neg[OF k(1)] k(2) have "DayFromYear (1970 + k) \<le> D" by linarith
  with False show ?thesis by (simp add: k_def)
qed

lemma YearFromDay_eq:
  assumes "DayFromYear y \<le> D" and "D < DayFromYear (y + 1)"
  shows "YearFromDay D = y"
  unfolding YearFromDay_def
  by (rule year_search_correct[OF search_start_below assms])


text \<open>The local time value of a date of the calendar and a clock time has these
  as its fields.\<close>

lemma month_cases:
  fixes m :: int
  assumes "1 \<le> m" "m \<le> 12"
  obtains "m = 1" | "m = 2" | "m = 3" | "m = 4" | "m = 5" | "m = 6"
    | "m = 7" | "m = 8" | "m = 9" | "m = 10" | "m = 11" | "m = 12"
proof -
  have three: "k = a \<or> k = a + 1 \<or> k = a + 2" if "a \<le> k" "k \<le> a + 2" for a k :: int
    using that by linarith
  consider (a) "m \<le> 3" | (b) "4 \<le> m" "m \<le> 6" | (c) "7 \<le> m" "m \<le> 9" | (d) "10 \<le> m"
    by linarith
  then have "m = 1 \<or> m = 2 \<or> m = 3 \<or> m = 4 \<or> m = 5 \<or> m = 6
        \<or> m = 7 \<or> m = 8 \<or> m = 9 \<or> m = 10 \<or> m = 11 \<or> m = 12"
  proof cases
    case a with three[of 1 m] assms show ?thesis by simp
  next
    case b with three[of 4 m] show ?thesis by simp
  next
    case c with three[of 7 m] show ?thesis by simp
  next
    case d with three[of 10 m] assms show ?thesis by simp
  qed
  then show thesis using that by blast
qed

lemma day_of_year_bounds:
  assumes "1 \<le> m" "m \<le> 12" "1 \<le> d" "d \<le> days_in_month y m"
  defines "l \<equiv> (if DaysInYear y = 366 then 1 else 0)"
  shows "0 \<le> month_start (m - 1) l + d - 1"
    and "month_start (m - 1) l + d - 1 < DaysInYear y"
proof -
  have "0 \<le> month_start (m - 1) l + d - 1 \<and> month_start (m - 1) l + d - 1 < DaysInYear y"
    using assms(1,2)
    by (cases m rule: month_cases)
      (use assms(3,4) DaysInYear_cases[of y] in
        \<open>auto simp add: month_start_def days_in_month_def l_def\<close>)
  then show "0 \<le> month_start (m - 1) l + d - 1"
    and "month_start (m - 1) l + d - 1 < DaysInYear y" by simp_all
qed

lemma MakeDay_valid:
  assumes "1 \<le> m" "m \<le> 12"
  shows "MakeDay y (m - 1) d
         = DayFromYear y + month_start (m - 1) (if DaysInYear y = 366 then 1 else 0) + d - 1"
proof -
  have "(m - 1) div 12 = 0" "(m - 1) mod 12 = m - 1" using assms by simp_all
  then show ?thesis by (simp add: MakeDay_def Let_def)
qed

lemma MakeTime_bounds:
  assumes "valid_clock_time h mi s"
  shows "0 \<le> MakeTime h mi s 0" and "MakeTime h mi s 0 < msPerDay"
  using assms
  by (simp_all add: valid_clock_time_def MakeTime_def msPerDay_def msPerHour_def
      msPerMinute_def msPerSecond_def)

lemma Day_MakeDate:
  assumes "0 \<le> t" "t < msPerDay"
  shows "Day (MakeDate D t) = D"
  unfolding Day_def MakeDate_def
  by (rule int_div_pos_eq[of _ _ _ t]) (use assms in \<open>simp_all add: mult.commute\<close>)

lemma clock_fields:
  assumes "valid_clock_time h mi s"
  shows "HourFromTime (MakeDate D (MakeTime h mi s 0)) = h"
    and "MinFromTime (MakeDate D (MakeTime h mi s 0)) = mi"
    and "SecFromTime (MakeDate D (MakeTime h mi s 0)) = s"
proof -
  let ?t = "MakeDate D (MakeTime h mi s 0)"
  from assms have b: "0 \<le> h" "h < 24" "0 \<le> mi" "mi < 60" "0 \<le> s" "s < 60"
    by (simp_all add: valid_clock_time_def)
  have th: "?t = 3600000 * (24 * D + h) + (60000 * mi + 1000 * s)"
    by (simp add: MakeDate_def MakeTime_def msPerDay_def msPerHour_def msPerMinute_def
        msPerSecond_def algebra_simps)
  have "?t div 3600000 = 24 * D + h"
    by (rule int_div_pos_eq[OF th]) (use b in linarith)+
  moreover have "(24 * D + h) mod 24 = h"
    by (rule int_mod_pos_eq[of _ _ D]) (use b in simp_all)
  ultimately show "HourFromTime ?t = h" by (simp add: HourFromTime_def msPerHour_def)
  have tm: "?t = 60000 * (60 * (24 * D + h) + mi) + 1000 * s"
    by (simp add: th algebra_simps)
  have "?t div 60000 = 60 * (24 * D + h) + mi"
    by (rule int_div_pos_eq[OF tm]) (use b in linarith)+
  moreover have "(60 * (24 * D + h) + mi) mod 60 = mi"
    by (rule int_mod_pos_eq[of _ _ "24 * D + h"]) (use b in simp_all)
  ultimately show "MinFromTime ?t = mi" by (simp add: MinFromTime_def msPerMinute_def)
  have ts: "?t = 1000 * (60 * (60 * (24 * D + h) + mi) + s) + 0"
    by (simp add: th algebra_simps)
  have "?t div 1000 = 60 * (60 * (24 * D + h) + mi) + s"
    by (rule int_div_pos_eq[OF ts]) simp_all
  moreover have "(60 * (60 * (24 * D + h) + mi) + s) mod 60 = s"
    by (rule int_mod_pos_eq[of _ _ "60 * (24 * D + h) + mi"]) (use b in simp_all)
  ultimately show "SecFromTime ?t = s" by (simp add: SecFromTime_def msPerSecond_def)
qed

lemma calendar_fields:
  assumes "1 \<le> m" "m \<le> 12" "1 \<le> d" "d \<le> days_in_month y m"
    and "0 \<le> t" "t < msPerDay"
  shows "YearFromTime (MakeDate (MakeDay y (m - 1) d) t) = y"
    and "MonthFromTime (MakeDate (MakeDay y (m - 1) d) t) = m - 1"
    and "DateFromTime (MakeDate (MakeDay y (m - 1) d) t) = d"
proof -
  define l :: int where "l = (if DaysInYear y = 366 then 1 else 0)"
  define k where "k = month_start (m - 1) l + d - 1"
  let ?t = "MakeDate (MakeDay y (m - 1) d) t"
  have k: "0 \<le> k" "k < DaysInYear y"
    using day_of_year_bounds[OF assms(1-4)] by (simp_all add: k_def l_def)
  have D: "Day ?t = DayFromYear y + k"
    by (simp add: Day_MakeDate[OF assms(5,6)] MakeDay_valid[OF assms(1,2)] k_def l_def)
  show Y: "YearFromTime ?t = y"
    unfolding YearFromTime_def D
    by (rule YearFromDay_eq) (use k in \<open>simp_all add: DayFromYear_Suc\<close>)
  have W: "DayWithinYear ?t = k" by (simp add: DayWithinYear_def D Y)
  have L: "InLeapYear ?t = l" by (simp add: InLeapYear_def Y l_def)
  have l01: "l = 0 \<or> l = 1" by (simp add: l_def)
  show M: "MonthFromTime ?t = m - 1"
    unfolding MonthFromTime_def W L Let_def k_def
    using assms(1,2)
    by (cases m rule: month_cases)
      (use assms(3,4) l01 in \<open>auto simp add: month_start_def days_in_month_def l_def\<close>)
  show "DateFromTime ?t = d"
    unfolding DateFromTime_def W L M Let_def k_def
    using assms(1,2)
    by (cases m rule: month_cases) (simp_all add: month_start_def)
qed

subsection \<open>The timestamp of a transaction\<close>

lemma isDigit_not_special:
  assumes "isDigit c"
  shows "c \<noteq> CHR ''/''" "c \<noteq> CHR ''-''" "c \<noteq> CHR ''+''" "\<not> js_isWhiteSpace c"
  using assms by (auto simp: isDigit_def js_isWhiteSpace_def)

lemma digit_range:
  assumes "isDigit c"
  shows "0 \<le> (of_char c :: int) - 48" "(of_char c :: int) - 48 \<le> 9"
proof -
  from assms have "48 \<le> (of_char c :: nat)" "(of_char c :: nat) \<le> 57"
    by (simp_all add: isDigit_def)
  then have "(48::int) \<le> int (of_char c)" "int (of_char c) \<le> 57" by linarith+
  then show "0 \<le> (of_char c :: int) - 48" "(of_char c :: int) - 48 \<le> 9"
    by (simp_all add: of_nat_of_char)
qed

lemma date_pattern_year:
  assumes "date_pattern s"
  shows "\<exists>y. parseInt_at (dateParts_of s) 2 = Some y \<and> 0 \<le> y \<and> y \<le> 9999"
proof -
  from assms obtain d1 d2 s1 m1 m2 s2 y1 y2 y3 y4 where
    s: "s = [d1, d2, s1, m1, m2, s2, y1, y2, y3, y4]"
    by (rule date_pattern.elims(2)) blast
  with assms have dg: "isDigit d1" "isDigit d2" "isDigit m1" "isDigit m2"
    "isDigit y1" "isDigit y2" "isDigit y3" "isDigit y4" and sl: "s1 = CHR ''/''" "s2 = CHR ''/''"
    by simp_all
  have parts: "dateParts_of s = [[d1, d2], [m1, m2], [y1, y2, y3, y4]]"
    using dg sl by (simp add: dateParts_of_def js_split_def s isDigit_not_special)
  have p: "js_parseInt [y1, y2, y3, y4] = Some (digits_value [y1, y2, y3, y4])"
    using dg(5-8) by (simp add: js_parseInt_def Let_def isDigit_not_special)
  have "0 \<le> digits_value [y1, y2, y3, y4]" "digits_value [y1, y2, y3, y4] \<le> 9999"
    using digit_range[OF dg(5)] digit_range[OF dg(6)] digit_range[OF dg(7)]
      digit_range[OF dg(8)]
    by (simp_all add: digits_value_def)
  with p parts show ?thesis by (simp add: parseInt_at_def js_nth_def)
qed

lemma DayFromYear_mono: "a \<le> b \<Longrightarrow> DayFromYear a \<le> DayFromYear b"
  using DayFromYear_strict_mono[of a b] by (cases "a = b") auto

lemma new_Date_valid:
  assumes "valid_calendar_date y m d" and "y \<le> 9999" and "valid_clock_time hh mi s"
    and "zone_keeps h (MakeDate (MakeDay y (m - 1) d) (MakeTime hh mi s 0))"
  shows "\<exists>u. js_new_Date h (Some y) (Some (m - 1)) (Some d) (Some hh) (Some mi) (Some s) = Some u
            \<and> LocalTime h u = MakeDate (MakeDay y (m - 1) d) (MakeTime hh mi s 0)"
proof -
  from assms(1) have v: "100 \<le> y" "1 \<le> m" "m \<le> 12" "1 \<le> d" "d \<le> days_in_month y m"
    by (simp_all add: valid_calendar_date_def)
  define k where "k = month_start (m - 1) (if DaysInYear y = 366 then 1 else 0) + d - 1"
  define D where "D = DayFromYear y"
  define t where "t = MakeTime hh mi s 0"
  define tv where "tv = MakeDate (MakeDay y (m - 1) d) t"
  define z where "z = offset_at_local h tv"
  have k: "0 \<le> k" "k < 366"
    using day_of_year_bounds[OF v(2-5)] DaysInYear_cases[of y] by (auto simp: k_def)
  have "DayFromYear 100 \<le> D" "D \<le> DayFromYear 9999"
    unfolding D_def using v(1) assms(2) by (simp_all add: DayFromYear_mono)
  then have D: "- 683003 \<le> D" "D \<le> 2932532" by (simp_all add: DayFromYear_def)
  have t: "0 \<le> t" "t < 86400000"
    using MakeTime_bounds[OF assms(3)] by (simp_all add: t_def msPerDay_def)
  from assms(4) have z: "\<bar>z\<bar> \<le> 86400000" and rt: "offset_at_utc h (UTC h tv) = z"
    by (simp_all add: zone_keeps_def z_def tv_def t_def msPerDay_def)
  have md: "MakeDay y (m - 1) d = D + k"
    by (simp add: MakeDay_valid[OF v(2,3)] k_def D_def)
  have "- 683003 \<le> D + k" "D + k \<le> 2932898" using D k by linarith+
  then have "- 683003 * 86400000 \<le> (D + k) * 86400000"
    "(D + k) * 86400000 \<le> 2932898 * 86400000"
    by simp_all
  moreover define X where "X = (D + k) * 86400000"
  ultimately have "- 59011459200000 \<le> X" "X \<le> 253402387200000" by simp_all
  with t z have "\<bar>X + t - z\<bar> \<le> 8640000000000000" by linarith
  moreover have u: "UTC h tv = X + t - z"
    by (simp add: UTC_def z_def tv_def MakeDate_def md msPerDay_def X_def)
  ultimately have clip: "TimeClip (UTC h tv) = Some (UTC h tv)"
    by (simp add: TimeClip_def)
  have "LocalTime h (UTC h tv) = tv"
    unfolding LocalTime_def rt by (simp add: UTC_def z_def)
  with clip show ?thesis
    using v(1) by (simp add: js_new_Date_def Let_def t_def tv_def)
qed

lemma common_processing_date:
  assumes "common_processing h k m a d tm p = Some t"
  shows "date_pattern (rawDate t)" and "date t = jsDate_of h (rawDate t) (rawTime t)"
  using assms by (auto simp: common_processing_def Let_def split: if_splits)

lemma valid_fields_agree:
  assumes "date_pattern (rawDate t)" and "date t = jsDate_of h (rawDate t) (rawTime t)"
    and "raw_fields_valid t" and "raw_time_kept h t"
  shows "calendar_fields_agree h t"
proof -
  let ?dp = "dateParts_of (rawDate t)" and ?tp = "timeParts_of (rawTime t)"
  from assms(3) obtain y m d hh mi s where
    f: "parseInt_at ?dp 2 = Some y" "parseInt_at ?dp 1 = Some m" "parseInt_at ?dp 0 = Some d"
       "parseInt_or0 ?tp 0 = Some hh" "parseInt_or0 ?tp 1 = Some mi" "parseInt_or0 ?tp 2 = Some s"
    and v: "valid_calendar_date y m d" "valid_clock_time hh mi s"
    by (auto simp: raw_fields_valid_def Let_def split: option.splits)
  from assms(4) have zk: "zone_keeps h (MakeDate (MakeDay y (m - 1) d) (MakeTime hh mi s 0))"
    unfolding raw_time_kept_def Let_def f by simp
  from date_pattern_year[OF assms(1)] f(1) have y: "y \<le> 9999" by simp
  from new_Date_valid[OF v(1) y v(2) zk] obtain u where
    u: "js_new_Date h (Some y) (Some (m - 1)) (Some d) (Some hh) (Some mi) (Some s) = Some u"
       "LocalTime h u = MakeDate (MakeDay y (m - 1) d) (MakeTime hh mi s 0)" by blast
  have dt: "date t = Some u"
    unfolding assms(2) jsDate_of_def Let_def f by (simp add: u(1))
  from v(1) have c: "1 \<le> m" "m \<le> 12" "1 \<le> d" "d \<le> days_in_month y m"
    by (simp_all add: valid_calendar_date_def)
  note cal = calendar_fields[OF c MakeTime_bounds[OF v(2)]]
  note clk = clock_fields[OF v(2), of "MakeDay y (m - 1) d"]
  show ?thesis
    unfolding calendar_fields_agree_def Let_def f dt
    by (simp add: getFullYear_def getMonth_def getDate_def getHours_def getMinutes_def
        getSeconds_def u(2) cal clk)
qed

text \<open>
  Claim C5, as amended. For every transaction of the result whose raw date is a
  date of the calendar (year from 100 on, month 1 to 12, a day the month has),
  whose raw time is a time of the 24 hour clock (hour below 24, minute and second
  below 60), and whose local time the time zone of the host does not skip, the
  calendar fields of the timestamp equal the year, month (counted from 0), day,
  hour, minute and second read from \<open>rawDate\<close> and \<open>rawTime\<close>. The offset of the
  zone may change from one instant to another.
\<close>

theorem calendar_fields_round_trip:
  assumes "parseCSV h csvText = Inr r"
  shows "\<forall>t \<in> set (transactions r).
           raw_fields_valid t \<longrightarrow> raw_time_kept h t \<longrightarrow> calendar_fields_agree h t"
proof (intro ballI impI)
  fix t assume "t \<in> set (transactions r)" and v: "raw_fields_valid t" "raw_time_kept h t"
  from parseCSV_transactions[OF assms(1) this(1)] obtain k m a d tm p where
    "common_processing h k m a d tm p = Some t" by blast
  from common_processing_date[OF this] show "calendar_fields_agree h t"
    using v by (intro valid_fields_agree)
qed

text \<open>The theorem at the example report, for the host in Sao Paulo, whose offset
  changes twice a year.\<close>

theorem calendar_fields_round_trip_witness:
  "\<exists>r. parseCSV sao_paulo_host attendant_example = Inr r
     \<and> map rawDate (transactions r) = [''05/03/2024'']
     \<and> map rawTime (transactions r) = [''09:15:00'']
     \<and> list_all raw_fields_valid (transactions r)
     \<and> list_all (raw_time_kept sao_paulo_host) (transactions r)
     \<and> list_all (calendar_fields_agree sao_paulo_host) (transactions r)"
proof -
  have e: "parseCSV sao_paulo_host attendant_example = Inr
     \<lparr>metadata = \<lparr>unitName = ''Cliente X'', period = default_period,
                  reportType = ''ATTENDANT''\<rparr>,
      transactions =
        [\<lparr>id_tx = ''1-05/03/2024-09:15:00-Secadora 1'',
          date = Some 1709640900000, rawDate = ''05/03/2024'',
          rawTime = ''09:15:00'', productName = ''Secadora 1'',
          type_tx = DRY, amount = Num 12, paymentMethod = ''Cartao'',
          machine = ''Secadora 1'', dayOfWeek = Some 2\<rparr>]\<rparr>"
    by code_simp
  have v: "raw_fields_valid
        \<lparr>id_tx = ''1-05/03/2024-09:15:00-Secadora 1'',
          date = Some 1709640900000, rawDate = ''05/03/2024'',
          rawTime = ''09:15:00'', productName = ''Secadora 1'',
          type_tx = DRY, amount = Num 12, paymentMethod = ''Cartao'',
          machine = ''Secadora 1'', dayOfWeek = Some 2\<rparr>"
    by code_simp
  have z: "raw_time_kept sao_paulo_host
        \<lparr>id_tx = ''1-05/03/2024-09:15:00-Secadora 1'',
          date = Some 1709640900000, rawDate = ''05/03/2024'',
          rawTime = ''09:15:00'', productName = ''Secadora 1'',
          type_tx = DRY, amount = Num 12, paymentMethod = ''Cartao'',
          machine = ''Secadora 1'', dayOfWeek = Some 2\<rparr>"
    by code_simp
  show ?thesis
    using calendar_fields_round_trip[OF e] v z by (simp add: e)
qed

text \<open>Claim C5 as stated fails twice. The row dated \<^verbatim>\<open>31/02/2024\<close> is accepted,
  and its timestamp is the 2nd of March (month 2 counted from 0, day 2), not the
  31st of February. On the host in Sao Paulo the row dated \<^verbatim>\<open>04/11/2018\<close> and timed
  \<^verbatim>\<open>00:30:00\<close>, a date of the calendar and a time of the clock, names a local
  time that the change to summer time skipped: the hour of its timestamp is 1,
  not 0.\<close>

theorem calendar_fields_overflow:
  "parseCSV utc_host overflow_example = Inr
     \<lparr>metadata = \<lparr>unitName = ''Loja'', period = default_period, reportType = ''ATTENDANT''\<rparr>,
      transactions = [overflow_transaction]\<rparr>
   \<and> getMonth utc_host (date overflow_transaction) = Some 2
   \<and> getDate utc_host (date overflow_transaction) = Some 2
   \<and> parseInt_at (dateParts_of (rawDate overflow_transaction)) 1 = Some 2
   \<and> parseInt_at (dateParts_of (rawDate overflow_transaction)) 0 = Some 31
   \<and> \<not> calendar_fields_agree utc_host overflow_transaction
   \<and> parseCSV sao_paulo_host skipped_hour_example = Inr
     \<lparr>metadata = \<lparr>unitName = ''Loja'', period = default_period, reportType = ''ATTENDANT''\<rparr>,
      transactions = [skipped_hour_transaction]\<rparr>
   \<and> raw_fields_valid skipped_hour_transaction
   \<and> getHours sao_paulo_host (date skipped_hour_transaction) = Some 1
   \<and> parseInt_or0 (timeParts_of (rawTime skipped_hour_transaction)) 0 = Some 0
   \<and> \<not> calendar_fields_agree sao_paulo_host skipped_hour_transaction"
proof (intro conjI)
  show "parseCSV utc_host overflow_example = Inr
     \<lparr>metadata = \<lparr>unitName = ''Loja'', period = default_period, reportType = ''ATTENDANT''\<rparr>,
      transactions = [overflow_transaction]\<rparr>"
    by code_simp
  show "getMonth utc_host (date overflow_transaction) = Some 2" by code_simp
  show "getDate utc_host (date overflow_transaction) = Some 2" by code_simp
  show "parseInt_at (dateParts_of (rawDate overflow_transaction)) 1 = Some 2" by code_simp
  show "parseInt_at (dateParts_of (rawDate overflow_transaction)) 0 = Some 31" by code_simp
  show "\<not> calendar_fields_agree utc_host overflow_transaction" by code_simp
  show "parseCSV sao_paulo_host skipped_hour_example = Inr
     \<lparr>metadata = \<lparr>unitName = ''Loja'', period = default_period, reportType = ''ATTENDANT''\<rparr>,
      transactions = [skipped_hour_transaction]\<rparr>"
    by code_simp
  show "raw_fields_valid skipped_hour_transaction" by code_simp
  show "getHours sao_paulo_host (date skipped_hour_transaction) = Some 1" by code_simp
  show "parseInt_or0 (timeParts_of (rawTime skipped_hour_transaction)) 0 = Some 0" by code_simp
  show "\<not> calendar_fields_agree sao_paulo_host skipped_hour_transaction" by code_simp
qed

end
